theory Spec2Isabelle
  imports Main "HOL-Library.AList"
begin

section \<open>Strings\<close>

text \<open>
  A JavaScript string is a sequence of UTF-16 code units, and every offset of the program
  (\<open>startIndex\<close>, \<open>endIndex\<close>, \<open>length\<close>, \<open>substring\<close>) counts code units. A string is
  therefore a list of code units, each a natural number; \<open>js\<close> turns a literal into one.
\<close>

type_synonym jsstring = "nat list"

definition ch :: "char \<Rightarrow> nat" where
  "ch c = of_char c"

definition js :: "string \<Rightarrow> jsstring" where
  "js s = map ch s"

text \<open>The class \<open>\s\<close> of a JavaScript regular expression, which is also what \<open>trim\<close> strips.\<close>

definition is_space :: "nat \<Rightarrow> bool" where
  "is_space c \<longleftrightarrow>
     c = 9 \<or> c = 10 \<or> c = 11 \<or> c = 12 \<or> c = 13 \<or> c = 32 \<or> c = 160 \<or> c = 5760 \<or>
     (8192 \<le> c \<and> c \<le> 8202) \<or> c = 8232 \<or> c = 8233 \<or> c = 8239 \<or> c = 8287 \<or>
     c = 12288 \<or> c = 65279"

text \<open>The class \<open>[a-zA-Z0-9_:]\<close> of tag names, and \<open>[a-zA-Z0-9_:-]\<close> of attribute names.\<close>

definition is_name_char :: "nat \<Rightarrow> bool" where
  "is_name_char c \<longleftrightarrow>
     (97 \<le> c \<and> c \<le> 122) \<or> (65 \<le> c \<and> c \<le> 90) \<or> (48 \<le> c \<and> c \<le> 57) \<or> c = 95 \<or> c = 58"

definition is_attr_char :: "nat \<Rightarrow> bool" where
  "is_attr_char c \<longleftrightarrow> is_name_char c \<or> c = 45"

definition trim :: "jsstring \<Rightarrow> jsstring" where
  "trim s = rev (dropWhile is_space (rev (dropWhile is_space s)))"

text \<open>
  \<open>toLowerCase\<close> is only ever applied to a matched tag name, whose code units are all in
  \<open>[a-zA-Z0-9_:]\<close>; there it maps \<open>A-Z\<close> to \<open>a-z\<close> and leaves the rest.
\<close>

definition toLowerCase :: "jsstring \<Rightarrow> jsstring" where
  "toLowerCase s = map (\<lambda>c. if 65 \<le> c \<and> c \<le> 90 then c + 32 else c) s"

text \<open>\<open>Number.prototype.toString\<close> on a counter value: its decimal digits.\<close>

function toString :: "nat \<Rightarrow> jsstring" where
  "toString n = (if n < 10 then [48 + n] else toString (n div 10) @ [48 + n mod 10])"
  by pat_completeness auto
termination
  by (relation "measure (\<lambda>n. n)") auto

declare toString.simps [simp del]

text \<open>A string is truthy when it is present and not empty.\<close>

definition truthy :: "jsstring option \<Rightarrow> bool" where
  "truthy v = (case v of None \<Rightarrow> False | Some s \<Rightarrow> s \<noteq> [])"

section \<open>Tokens and the tree (docbookParser.ts, types.ts)\<close>

datatype token_type = Open | Close | Text | Comment | SelfClosing

text \<open>
  The interface \<open>Token\<close>. The optional fields are options; \<open>attributes\<close> is an object
  with string keys, kept as an association list in insertion order.
\<close>

record Token =
  ttype :: token_type
  tag :: "jsstring option"
  attributes :: "(jsstring \<times> jsstring) list option"
  content :: "jsstring option"
  startIndex :: nat
  endIndex :: nat

text \<open>
  \<open>component\<close> is a React element type. The parser only ever writes a tag string there,
  except that the lookup \<open>TAG_MAP[tagName]\<close> on a plain object also finds the members that
  every object inherits from \<open>Object.prototype\<close>; such a value is \<open>Inherited\<close> under its key.
\<close>

datatype component = Elem jsstring | Inherited jsstring

text \<open>
  \<open>ParsedChild = ParsedNode | ParsedTextNode\<close>. The selectors are the fields of types.ts
  (\<open>id\<close>, \<open>startIndex\<close>, \<open>endIndex\<close>, \<open>contentStartIndex\<close>, \<open>contentEndIndex\<close>, \<open>children\<close>,
  \<open>content\<close>), spelled so that they do not clash with the fields of a token.
\<close>

datatype ParsedChild =
    ParsedNode (node_id: jsstring) (component: component) (props: "(jsstring \<times> jsstring) list")
      (node_children: "ParsedChild list") (start_index: nat) (end_index: nat)
      (content_start_index: nat) (content_end_index: nat)
  | ParsedTextNode (node_id: jsstring) (text_content: jsstring) (start_index: nat) (end_index: nat)

section \<open>Variant resolution\<close>

definition TAG_MAP :: "(jsstring \<times> jsstring) list" where
  "TAG_MAP =
    [(js ''article'', js ''div''), (js ''title'', js ''h1''), (js ''para'', js ''p''),
     (js ''itemizedlist'', js ''ul''), (js ''listitem'', js ''li''), (js ''emphasis'', js ''em''),
     (js ''phrase'', js ''span''), (js ''superscript'', js ''sup''), (js ''subscript'', js ''sub''),
     (js ''strong'', js ''strong''), (js ''sect1'', js ''section''), (js ''sect2'', js ''section''),
     (js ''ulink'', js ''a''), (js ''link'', js ''a'')]"

definition PROPS_MAP :: "(jsstring \<times> (jsstring \<times> jsstring) list) list" where
  "PROPS_MAP =
    [(js ''h1'', [(js ''className'', js ''text-3xl font-bold mb-4 border-b border-gray-300 pb-2 text-gray-900'')]),
     (js ''h2'', [(js ''className'', js ''text-2xl font-bold mb-3 mt-6 text-gray-900'')]),
     (js ''h3'', [(js ''className'', js ''text-xl font-bold mb-2 mt-4 text-gray-900'')]),
     (js ''section'', [(js ''className'', js ''py-2'')]),
     (js ''p'', [(js ''className'', js ''mb-4'')]),
     (js ''ul'', [(js ''className'', js ''list-disc pl-8 mb-4'')]),
     (js ''li'', [(js ''className'', js ''mb-2'')]),
     (js ''em'', [(js ''className'', js ''italic text-indigo-600'')]),
     (js ''strong'', [(js ''className'', js ''font-bold text-teal-600'')]),
     (js ''sup'', [(js ''className'', js ''align-super text-sm'')]),
     (js ''sub'', [(js ''className'', js ''align-sub text-sm'')]),
     (js ''a'', [(js ''className'', js ''text-blue-600 underline hover:text-blue-800'')])]"

text \<open>The property names that every object inherits from \<open>Object.prototype\<close>.\<close>

definition object_prototype_keys :: "jsstring list" where
  "object_prototype_keys =
    [js ''constructor'', js ''__defineGetter__'', js ''__defineSetter__'', js ''hasOwnProperty'',
     js ''__lookupGetter__'', js ''__lookupSetter__'', js ''isPrototypeOf'',
     js ''propertyIsEnumerable'', js ''toString'', js ''valueOf'', js ''__proto__'',
     js ''toLocaleString'']"

text \<open>A property key: \<open>undefined\<close> used as a key is the string \<open>"undefined"\<close>.\<close>

definition key_of :: "jsstring option \<Rightarrow> jsstring" where
  "key_of t = (case t of None \<Rightarrow> js ''undefined'' | Some s \<Rightarrow> s)"

text \<open>\<open>TAG_MAP[tagName] || 'div'\<close>: every value that the lookup finds is truthy.\<close>

definition lookup_component :: "jsstring option \<Rightarrow> component" where
  "lookup_component tagName =
     (case map_of TAG_MAP (key_of tagName) of
        Some c \<Rightarrow> Elem c
      | None \<Rightarrow> if key_of tagName \<in> set object_prototype_keys then Inherited (key_of tagName)
                else Elem (js ''div''))"

text \<open>
  \<open>{ ...(PROPS_MAP[key] || {}) }\<close>: spreading an inherited function or object copies no
  property, since those have no enumerable property of their own.
\<close>

definition lookup_props :: "jsstring option \<Rightarrow> (jsstring \<times> jsstring) list" where
  "lookup_props key = (case map_of PROPS_MAP (key_of key) of Some p \<Rightarrow> p | None \<Rightarrow> [])"

text \<open>\<open>token.attributes?.[key]\<close>\<close>

definition attr :: "Token \<Rightarrow> jsstring \<Rightarrow> jsstring option" where
  "attr token key = (case attributes token of None \<Rightarrow> None | Some a \<Rightarrow> map_of a key)"

text \<open>\<open>a || b\<close> on optional strings.\<close>

definition js_or :: "jsstring option \<Rightarrow> jsstring option \<Rightarrow> jsstring option" where
  "js_or a b = (if truthy a then a else b)"

text \<open>
  Lines 103 to 127 of \<open>parse\<close>: the component and the props of the element at \<open>token\<close>,
  from its tag, its attributes and the tag of the enclosing call.
\<close>

definition resolve :: "Token \<Rightarrow> jsstring option \<Rightarrow> component \<times> (jsstring \<times> jsstring) list" where
  "resolve token parentTagName =
    (let tagName = tag token;
         component = lookup_component tagName;
         dynamicProps = lookup_props tagName
     in
       if tagName = Some (js ''title'') then
         (if parentTagName = Some (js ''article'') then (Elem (js ''h1''), lookup_props (Some (js ''h1'')))
          else if parentTagName = Some (js ''sect1'') then (Elem (js ''h2''), lookup_props (Some (js ''h2'')))
          else if parentTagName = Some (js ''sect2'') then (Elem (js ''h3''), lookup_props (Some (js ''h3'')))
          else (Elem (js ''strong''), [(js ''className'', js ''font-bold text-lg block text-gray-800'')]))
       else if tagName = Some (js ''emphasis'') then
         (let role = attr token (js ''role'') in
            if role = Some (js ''bold'') then
              (Elem (js ''strong''),
               fold (\<lambda>(k, v). AList.update k v) (lookup_props (Some (js ''strong''))) dynamicProps)
            else if role = Some (js ''underline'') then
              (Elem (js ''span''),
               AList.update (js ''className'')
                 (trim ((case js_or (map_of dynamicProps (js ''className'')) (Some []) of
                           Some v \<Rightarrow> v | None \<Rightarrow> [])
                        @ js '' underline decoration-yellow-500 text-yellow-700''))
                 dynamicProps)
            else (component, dynamicProps))
       else if component = Elem (js ''a'') then
         (let url = js_or (attr token (js ''url'')) (attr token (js ''xlink:href'')) in
            case url of
              Some u \<Rightarrow>
                if u \<noteq> [] then
                  (component,
                   AList.update (js ''rel'') (js ''noopener noreferrer'')
                     (AList.update (js ''target'') (js ''_blank'')
                        (AList.update (js ''href'') u dynamicProps)))
                else (component, dynamicProps)
            | None \<Rightarrow> (component, dynamicProps))
       else (component, dynamicProps))"

section \<open>The parser\<close>

text \<open>
  The local variables that the child loop of \<open>parse\<close> changes, together with the module's
  counter \<open>nodeIdCounter\<close>, which the loop and the recursive calls share.
\<close>

record parse_state =
  children :: "ParsedChild list"
  contentEndIndex :: nat
  nextIndex :: nat
  finalEndIndex :: nat
  nodeIdCounter :: nat

text \<open>
  \<open>parse tokens index parentTagName c\<close> is the call \<open>parse(tokens, index, parentTagName)\<close>
  entered with \<open>nodeIdCounter = c\<close>; it returns the result (\<open>None\<close> for \<open>null\<close>, else the
  node and \<open>nextIndex\<close>) and the counter on exit. \<open>consume\<close> is the \<open>while\<close> loop of
  lines 136 to 167, from the state at the loop head to the state when the loop is left.
  Both give what the program computes when the call stack of the engine holds the
  recursion; \<open>parse_call\<close> below is the same call on a call stack of a given size.
\<close>

function parse :: "Token list \<Rightarrow> nat \<Rightarrow> jsstring option \<Rightarrow> nat \<Rightarrow> (ParsedChild \<times> nat) option \<times> nat"
  and consume :: "Token list \<Rightarrow> jsstring option \<Rightarrow> parse_state \<Rightarrow> parse_state"
where
  "parse tokens index parentTagName c =
    (if index < length tokens then
       (let token = tokens ! index in
        if ttype token \<noteq> Open \<and> ttype token \<noteq> SelfClosing then (None, c)
        else
          (let tagName = tag token;
               st0 = \<lparr>children = [], contentEndIndex = endIndex token, nextIndex = index + 1,
                      finalEndIndex = endIndex token, nodeIdCounter = c\<rparr>;
               st = (if ttype token = Open then consume tokens tagName st0 else st0);
               nodeId = toString (nodeIdCounter st)
           in (Some (ParsedNode nodeId (fst (resolve token parentTagName))
                       (AList.update (js ''data-id'') nodeId (snd (resolve token parentTagName)))
                       (children st) (startIndex token) (finalEndIndex st) (endIndex token)
                       (contentEndIndex st),
                     nextIndex st),
               nodeIdCounter st + 1)))
     else (None, c))"
| "consume tokens tagName st =
    (if nextIndex st < length tokens then
       (let nextToken = tokens ! nextIndex st in
        if ttype nextToken = Close \<and> tag nextToken = tagName then
          st\<lparr>contentEndIndex := startIndex nextToken, finalEndIndex := endIndex nextToken,
             nextIndex := nextIndex st + 1\<rparr>
        else if ttype nextToken = Text then
          (if truthy (content nextToken) then
             consume tokens tagName
               (st\<lparr>children := children st @
                      [ParsedTextNode (js ''text-'' @ toString (nodeIdCounter st))
                         (the (content nextToken)) (startIndex nextToken) (endIndex nextToken)],
                   nodeIdCounter := nodeIdCounter st + 1,
                   nextIndex := nextIndex st + 1\<rparr>)
           else consume tokens tagName (st\<lparr>nextIndex := nextIndex st + 1\<rparr>))
        else if ttype nextToken = Open \<or> ttype nextToken = SelfClosing then
          (case parse tokens (nextIndex st) tagName (nodeIdCounter st) of
             (Some (node, ni), c') \<Rightarrow>
               consume tokens tagName
                 (st\<lparr>children := children st @ [node], nextIndex := ni, nodeIdCounter := c'\<rparr>)
           | (None, c') \<Rightarrow>
               consume tokens tagName (st\<lparr>nextIndex := nextIndex st + 1, nodeIdCounter := c'\<rparr>))
        else consume tokens tagName (st\<lparr>nextIndex := nextIndex st + 1\<rparr>))
     else st)"
  by pat_completeness auto

text \<open>
  The call stack of a JavaScript engine is finite, and every level of nesting is one more
  activation of \<open>parse\<close> on it (the call of line 157). An activation that finds no room
  makes the engine throw \<open>RangeError\<close>, and the exception leaves every loop and every call
  around it, up to the \<open>catch\<close> of \<open>parseDocBook\<close>.
\<close>

datatype error = RangeError

text \<open>
  \<open>parse_call stack tokens index parentTagName c\<close> is the call of \<open>parse\<close> when the call
  stack has room for \<open>stack\<close> more activations of \<open>parse\<close>, this one included: \<open>Inl\<close> is the
  exception thrown, \<open>Inr\<close> the result returned and the counter on exit.
  \<open>consume_call stack\<close> is the loop of an activation, with room for \<open>stack\<close> activations
  below it.
\<close>

function parse_call :: "nat \<Rightarrow> Token list \<Rightarrow> nat \<Rightarrow> jsstring option \<Rightarrow> nat \<Rightarrow> error + ((ParsedChild \<times> nat) option \<times> nat)"
  and consume_call :: "nat \<Rightarrow> Token list \<Rightarrow> jsstring option \<Rightarrow> parse_state \<Rightarrow> error + parse_state"
where
  "parse_call stack tokens index parentTagName c =
    (if stack = 0 then Inl RangeError
     else if index < length tokens then
       (let token = tokens ! index in
        if ttype token \<noteq> Open \<and> ttype token \<noteq> SelfClosing then Inr (None, c)
        else
          (let tagName = tag token;
               st0 = \<lparr>children = [], contentEndIndex = endIndex token, nextIndex = index + 1,
                      finalEndIndex = endIndex token, nodeIdCounter = c\<rparr>
           in case (if ttype token = Open then consume_call (stack - 1) tokens tagName st0
                    else Inr st0) of
                Inl e \<Rightarrow> Inl e
              | Inr st \<Rightarrow>
                  (let nodeId = toString (nodeIdCounter st)
                   in Inr (Some (ParsedNode nodeId (fst (resolve token parentTagName))
                                  (AList.update (js ''data-id'') nodeId (snd (resolve token parentTagName)))
                                  (children st) (startIndex token) (finalEndIndex st) (endIndex token)
                                  (contentEndIndex st),
                                nextIndex st),
                          nodeIdCounter st + 1))))
     else Inr (None, c))"
| "consume_call stack tokens tagName st =
    (if nextIndex st < length tokens then
       (let nextToken = tokens ! nextIndex st in
        if ttype nextToken = Close \<and> tag nextToken = tagName then
          Inr (st\<lparr>contentEndIndex := startIndex nextToken, finalEndIndex := endIndex nextToken,
                  nextIndex := nextIndex st + 1\<rparr>)
        else if ttype nextToken = Text then
          (if truthy (content nextToken) then
             consume_call stack tokens tagName
               (st\<lparr>children := children st @
                      [ParsedTextNode (js ''text-'' @ toString (nodeIdCounter st))
                         (the (content nextToken)) (startIndex nextToken) (endIndex nextToken)],
                   nodeIdCounter := nodeIdCounter st + 1,
                   nextIndex := nextIndex st + 1\<rparr>)
           else consume_call stack tokens tagName (st\<lparr>nextIndex := nextIndex st + 1\<rparr>))
        else if ttype nextToken = Open \<or> ttype nextToken = SelfClosing then
          (case parse_call stack tokens (nextIndex st) tagName (nodeIdCounter st) of
             Inl e \<Rightarrow> Inl e
           | Inr (Some (node, ni), c') \<Rightarrow>
               consume_call stack tokens tagName
                 (st\<lparr>children := children st @ [node], nextIndex := ni, nodeIdCounter := c'\<rparr>)
           | Inr (None, c') \<Rightarrow>
               consume_call stack tokens tagName (st\<lparr>nextIndex := nextIndex st + 1, nodeIdCounter := c'\<rparr>))
        else consume_call stack tokens tagName (st\<lparr>nextIndex := nextIndex st + 1\<rparr>))
     else Inr st)"
  by pat_completeness auto

section \<open>The tokenizer\<close>

text \<open>
  \<open>tokenRegex\<close> has four alternatives, tried in this order at a position; each matcher below
  takes the text from that position on and returns the length of the match. Every
  alternative is deterministic: a repetition is always followed by a code unit outside the
  repeated class, so giving back part of a greedy match never lets a later part succeed.
\<close>

definition starts_with :: "jsstring \<Rightarrow> jsstring \<Rightarrow> bool" where
  "starts_with xs p \<longleftrightarrow> take (length p) xs = p"

definition ends_with :: "jsstring \<Rightarrow> jsstring \<Rightarrow> bool" where
  "ends_with xs p \<longleftrightarrow> length p \<le> length xs \<and> drop (length xs - length p) xs = p"

text \<open>The first index at which \<open>pat\<close> occurs.\<close>

fun find_sub :: "jsstring \<Rightarrow> jsstring \<Rightarrow> nat option" where
  "find_sub pat [] = (if pat = [] then Some 0 else None)"
| "find_sub pat (x # xs) =
     (if starts_with (x # xs) pat then Some 0 else map_option Suc (find_sub pat xs))"

text \<open>
  \<open><!--(?:.|\s)*?-->\<close>: \<open>.\<close> and \<open>\s\<close> together match every code unit, and the lazy
  repetition stops at the first \<open>-->\<close> after the opening \<open><!--\<close>.
\<close>

definition match_comment :: "jsstring \<Rightarrow> nat option" where
  "match_comment xs =
     (if starts_with xs (js ''<!--'') then
        (case find_sub (js ''-->'') (drop 4 xs) of
           Some k \<Rightarrow> Some (4 + k + 3)
         | None \<Rightarrow> None)
      else None)"

text \<open>\<open><\/[a-zA-Z0-9_:]+>\<close>\<close>

definition match_close :: "jsstring \<Rightarrow> nat option" where
  "match_close xs =
     (if starts_with xs (js ''</'') then
        (let name = takeWhile is_name_char (drop 2 xs) in
         if name \<noteq> [] \<and> starts_with (drop (2 + length name) xs) (js ''>'')
         then Some (2 + length name + 1) else None)
      else None)"

text \<open>\<open>"[^"]*"|'[^']*'\<close>, with the value between the quotes.\<close>

definition match_quoted :: "jsstring \<Rightarrow> (jsstring \<times> nat) option" where
  "match_quoted xs =
     (case xs of
        [] \<Rightarrow> None
      | q # rest \<Rightarrow>
          if q = ch CHR 0x22 \<or> q = ch CHR 0x27 then
            (let v = takeWhile (\<lambda>c. c \<noteq> q) rest in
             if length v < length rest then Some (v, length v + 2) else None)
          else None)"

text \<open>One round of the group \<open>\s+[a-zA-Z0-9_:-]+=(?:"[^"]*"|'[^']*')\<close>\<close>

definition match_attr_group :: "jsstring \<Rightarrow> nat option" where
  "match_attr_group xs =
     (let ws = takeWhile is_space xs;
          r1 = drop (length ws) xs;
          nm = takeWhile is_attr_char r1;
          r2 = drop (length nm) r1
      in if ws \<noteq> [] \<and> nm \<noteq> [] \<and> starts_with r2 (js ''='') then
           (case match_quoted (drop 1 r2) of
              Some (v, n) \<Rightarrow> Some (length ws + length nm + 1 + n)
            | None \<Rightarrow> None)
         else None)"

text \<open>The greedy repetition of that group: as many rounds as match.\<close>

function match_attr_groups :: "jsstring \<Rightarrow> nat" where
  "match_attr_groups xs =
     (case match_attr_group xs of
        Some n \<Rightarrow> n + match_attr_groups (drop n xs)
      | None \<Rightarrow> 0)"
  by pat_completeness auto

text \<open>\<open><[a-zA-Z0-9_:]+(?:...)*\s*\/?>\<close>\<close>

definition match_open :: "jsstring \<Rightarrow> nat option" where
  "match_open xs =
     (if starts_with xs (js ''<'') then
        (let name = takeWhile is_name_char (drop 1 xs);
             r1 = drop (1 + length name) xs;
             n = match_attr_groups r1;
             r2 = drop n r1;
             ws = takeWhile is_space r2;
             r3 = drop (length ws) r2;
             sl = (if starts_with r3 (js ''/'') then 1 else 0);
             r4 = drop sl r3
         in if name \<noteq> [] \<and> starts_with r4 (js ''>'')
            then Some (1 + length name + n + length ws + sl + 1) else None)
      else None)"

text \<open>\<open>[^<]+\<close>\<close>

definition match_text :: "jsstring \<Rightarrow> nat option" where
  "match_text xs =
     (let t = takeWhile (\<lambda>c. c \<noteq> ch CHR ''<'') xs in
      if t \<noteq> [] then Some (length t) else None)"

datatype match_kind = MComment | MCloseTag | MOpenTag | MText

text \<open>The regular expression tried at one position: which group matched, and how long.\<close>

definition match_at :: "jsstring \<Rightarrow> (match_kind \<times> nat) option" where
  "match_at xs =
     (case match_comment xs of
        Some n \<Rightarrow> Some (MComment, n)
      | None \<Rightarrow>
     (case match_close xs of
        Some n \<Rightarrow> Some (MCloseTag, n)
      | None \<Rightarrow>
     (case match_open xs of
        Some n \<Rightarrow> Some (MOpenTag, n)
      | None \<Rightarrow>
     (case match_text xs of
        Some n \<Rightarrow> Some (MText, n)
      | None \<Rightarrow> None))))"

text \<open>
  \<open>tokenRegex.exec\<close> from \<open>lastIndex = p\<close>, given the text \<open>xs\<close> from \<open>p\<close> on: the first
  position at or after \<open>p\<close> where the expression matches, or \<open>None\<close> for \<open>null\<close>.
\<close>

fun next_match :: "jsstring \<Rightarrow> nat \<Rightarrow> (nat \<times> match_kind \<times> nat) option" where
  "next_match [] p = None"
| "next_match (x # xs) p =
     (case match_at (x # xs) of
        Some (k, n) \<Rightarrow> Some (p, k, n)
      | None \<Rightarrow> next_match xs (p + 1))"

text \<open>
  \<open>attributeRegex\<close>, \<open>([a-zA-Z0-9_:-]+)\s*=\s*(?:"([^"]*)"|'([^']*)')\<close>, at one position:
  the key, the value \<open>val1 ?? val2\<close> and the length of the match.
\<close>

definition match_attribute :: "jsstring \<Rightarrow> (jsstring \<times> jsstring \<times> nat) option" where
  "match_attribute xs =
     (let nm = takeWhile is_attr_char xs;
          r1 = drop (length nm) xs;
          ws1 = takeWhile is_space r1;
          r2 = drop (length ws1) r1;
          r3 = drop 1 r2;
          ws2 = takeWhile is_space r3;
          r4 = drop (length ws2) r3
      in if nm \<noteq> [] \<and> starts_with r2 (js ''='') then
           (case match_quoted r4 of
              Some (v, n) \<Rightarrow> Some (nm, v, length nm + length ws1 + 1 + length ws2 + n)
            | None \<Rightarrow> None)
         else None)"

text \<open>
  \<open>obj[key] = v\<close> for a string \<open>v\<close> on a plain object: the property is set or added, except
  that assigning a string to \<open>__proto__\<close> changes nothing.
\<close>

definition set_property :: "jsstring \<Rightarrow> jsstring \<Rightarrow> (jsstring \<times> jsstring) list \<Rightarrow> (jsstring \<times> jsstring) list" where
  "set_property key v obj = (if key = js ''__proto__'' then obj else AList.update key v obj)"

text \<open>
  The inner loop \<open>while ((attrMatch = attributeRegex.exec(openTag)) !== null)\<close> over the
  rest \<open>xs\<close> of the open tag: \<open>attributes[key] = val1 ?? val2\<close> for every match.
\<close>

function scan_attributes :: "jsstring \<Rightarrow> (jsstring \<times> jsstring) list \<Rightarrow> (jsstring \<times> jsstring) list" where
  "scan_attributes [] attrs = attrs"
| "scan_attributes (x # xs) attrs =
     (case match_attribute (x # xs) of
        Some (key, v, n) \<Rightarrow> scan_attributes (drop n (x # xs)) (set_property key v attrs)
      | None \<Rightarrow> scan_attributes xs attrs)"
  by pat_completeness auto

text \<open>\<open>openTag.match(/<([a-zA-Z0-9_:]+)/)\<close>: the first \<open><\<close> that a name follows, and that name.\<close>

fun tag_match :: "jsstring \<Rightarrow> jsstring option" where
  "tag_match [] = None"
| "tag_match (x # xs) =
     (if x = ch CHR ''<'' \<and> takeWhile is_name_char xs \<noteq> [] then Some (takeWhile is_name_char xs)
      else tag_match xs)"

text \<open>The body of the \<open>while\<close> loop of \<open>tokenize\<close> for one match: the tokens it pushes.\<close>

definition push_match :: "match_kind \<Rightarrow> jsstring \<Rightarrow> nat \<Rightarrow> Token list \<Rightarrow> Token list" where
  "push_match kind fullMatch start tokens =
     (let endI = start + length fullMatch in
      case kind of
        MComment \<Rightarrow>
          tokens @ [\<lparr>ttype = Comment, tag = None, attributes = None, content = Some fullMatch,
                     startIndex = start, endIndex = endI\<rparr>]
      | MCloseTag \<Rightarrow>
          tokens @ [\<lparr>ttype = Close, tag = Some (toLowerCase (butlast (drop 2 fullMatch))),
                     attributes = None, content = None, startIndex = start, endIndex = endI\<rparr>]
      | MOpenTag \<Rightarrow>
          (case tag_match fullMatch of
             None \<Rightarrow> tokens
           | Some name \<Rightarrow>
               tokens @ [\<lparr>ttype = (if ends_with fullMatch (js ''/>'') then SelfClosing else Open),
                          tag = Some (toLowerCase name),
                          attributes = Some (scan_attributes fullMatch []),
                          content = None, startIndex = start, endIndex = endI\<rparr>])
      | MText \<Rightarrow>
          if trim fullMatch \<noteq> [] then
            tokens @ [\<lparr>ttype = Text, tag = None, attributes = None, content = Some (trim fullMatch),
                       startIndex = start + length (takeWhile is_space fullMatch),
                       endIndex = endI\<rparr>]
          else if fullMatch \<noteq> [] then
            tokens @ [\<lparr>ttype = Text, tag = None, attributes = None, content = Some fullMatch,
                       startIndex = start, endIndex = endI\<rparr>]
          else tokens)"

text \<open>
  The \<open>while\<close> loop of \<open>tokenize\<close>, entered with \<open>tokenRegex.lastIndex = lastIndex\<close> and the
  tokens pushed so far.
\<close>

function tokenize_loop :: "jsstring \<Rightarrow> nat \<Rightarrow> Token list \<Rightarrow> Token list" where
  "tokenize_loop xmlString lastIndex tokens =
     (case next_match (drop lastIndex xmlString) lastIndex of
        None \<Rightarrow> tokens
      | Some (p, kind, n) \<Rightarrow>
          tokenize_loop xmlString (p + n)
            (push_match kind (take n (drop p xmlString)) p tokens))"
  by pat_completeness auto

definition tokenize :: "jsstring \<Rightarrow> Token list" where
  "tokenize xmlString = tokenize_loop xmlString 0 []"

section \<open>parseDocBook\<close>

text \<open>\<open>tokens.findIndex(P)\<close>, with \<open>None\<close> for \<open>-1\<close>.\<close>

fun findIndex :: "('a \<Rightarrow> bool) \<Rightarrow> 'a list \<Rightarrow> nat option" where
  "findIndex P [] = None"
| "findIndex P (x # xs) = (if P x then Some 0 else map_option Suc (findIndex P xs))"

text \<open>
  What \<open>parseDocBook\<close> takes from the browser and not from the repository. The
  well-formedness check is the browser's \<open>DOMParser\<close>: \<open>wellFormed xmlString\<close> says that it
  parses the text without an exception and that the document it returns holds no
  \<open>parsererror\<close> element. The engine decides when an exception is thrown for want of room:
  \<open>callStack\<close> is the number of activations of \<open>parse\<close> that its call stack holds when
  \<open>parseDocBook\<close> calls \<open>parse\<close>, and \<open>regexFits xmlString\<close> says that its matcher runs the
  two regular expressions of \<open>tokenize\<close> over the text without exhausting its own stack
  (the lazy repetition of the comment alternative keeps a backtracking point for every
  code unit that it passes).
\<close>

record engine =
  callStack :: nat
  regexFits :: "jsstring \<Rightarrow> bool"

text \<open>
  The \<open>try\<close> block of \<open>parseDocBook\<close>, lines 189 to 206: \<open>Inl\<close> is an exception thrown
  inside it, \<open>Inr\<close> the tree that it returns (\<open>None\<close> for \<open>{ tree: null }\<close>). The counter is
  set to 0 before the one call of \<open>parse\<close>.
\<close>

definition parseDocBook_try :: "(jsstring \<Rightarrow> bool) \<Rightarrow> engine \<Rightarrow> jsstring \<Rightarrow> error + ParsedChild option" where
  "parseDocBook_try wellFormed eng xmlString =
     (if \<not> wellFormed xmlString then Inr None
      else if \<not> regexFits eng xmlString then Inl RangeError
      else
        (let tokens = tokenize xmlString in
         if length tokens = 0 then Inr None
         else
           (case findIndex (\<lambda>t. ttype t = Open) tokens of
              None \<Rightarrow> Inr None
            | Some firstTagIndex \<Rightarrow>
                (case parse_call (callStack eng) tokens firstTagIndex None 0 of
                   Inl e \<Rightarrow> Inl e
                 | Inr (Some (node, ni), c) \<Rightarrow> Inr (Some node)
                 | Inr (None, c) \<Rightarrow> Inr None))))"

text \<open>\<open>parseDocBook\<close>: the \<open>try\<close> block, and \<open>{ tree: null }\<close> from the \<open>catch\<close> of lines 208 to 211.\<close>

definition parseDocBook :: "(jsstring \<Rightarrow> bool) \<Rightarrow> engine \<Rightarrow> jsstring \<Rightarrow> ParsedChild option" where
  "parseDocBook wellFormed eng xmlString =
     (case parseDocBook_try wellFormed eng xmlString of
        Inl e \<Rightarrow> None
      | Inr tree \<Rightarrow> tree)"

section \<open>The rendered view (RenderedView.tsx)\<close>

text \<open>\<open>s.substring(a, b)\<close> and \<open>s.substring(a)\<close> on offsets that are natural numbers.\<close>

definition substring :: "nat \<Rightarrow> nat \<Rightarrow> jsstring \<Rightarrow> jsstring" where
  "substring a b s = take (max a b - min a b) (drop (min a b) s)"

definition substring_from :: "nat \<Rightarrow> jsstring \<Rightarrow> jsstring" where
  "substring_from a s = drop a s"

text \<open>
  \<open>/\s|[.,;?!]/.test(str)\<close>: some code unit of \<open>str\<close> is white space or one of the five
  punctuation marks.
\<close>

definition is_boundary :: "nat \<Rightarrow> bool" where
  "is_boundary c \<longleftrightarrow>
     is_space c \<or> c = ch CHR ''.'' \<or> c = ch CHR '','' \<or> c = ch CHR '';'' \<or> c = ch CHR ''?'' \<or>
     c = ch CHR ''!''"

definition boundary_test :: "jsstring \<Rightarrow> bool" where
  "boundary_test str = list_ex is_boundary str"

text \<open>
  \<open>node.content[i]\<close> as \<open>test\<close> receives it: the string of the one code unit at \<open>i\<close>, or,
  out of range, \<open>undefined\<close>, which \<open>test\<close> converts to the string \<open>"undefined"\<close>.
\<close>

definition char_at :: "jsstring \<Rightarrow> nat \<Rightarrow> jsstring" where
  "char_at s i = (if i < length s then [s ! i] else js ''undefined'')"

text \<open>The two \<open>while\<close> loops of lines 60 to 68, over \<open>str = node.content\<close>.\<close>

function wordStartLoop :: "jsstring \<Rightarrow> nat \<Rightarrow> nat" where
  "wordStartLoop str wordStart =
     (if wordStart > 0 \<and> \<not> boundary_test (char_at str (wordStart - 1))
      then wordStartLoop str (wordStart - 1) else wordStart)"
  by pat_completeness auto
termination
  by (relation "measure (\<lambda>(c, w). w)") auto

function wordEndLoop :: "jsstring \<Rightarrow> nat \<Rightarrow> nat" where
  "wordEndLoop str wordEnd =
     (if int wordEnd < int (length str) - 1 \<and> \<not> boundary_test (char_at str (wordEnd + 1))
      then wordEndLoop str (wordEnd + 1) else wordEnd)"
  by pat_completeness auto
termination
  by (relation "measure (\<lambda>(c, w). length c - w)") auto

declare wordStartLoop.simps [simp del] wordEndLoop.simps [simp del]

datatype sync_source = Editor | Preview

text \<open>
  What \<open>RenderedTextNode\<close> puts inside its span: the content as it is, or \<open>before\<close>, the
  highlighted \<open>word\<close> and \<open>after\<close>.
\<close>

datatype rendered_text = Plain jsstring | Highlighted jsstring jsstring jsstring

definition RenderedTextNode :: "ParsedChild \<Rightarrow> nat option \<Rightarrow> sync_source option \<Rightarrow> rendered_text" where
  "RenderedTextNode node syncPos syncSource =
     (case syncPos of
        None \<Rightarrow> Plain (text_content node)
      | Some pos \<Rightarrow>
          if syncSource = Some Editor \<and> pos \<ge> start_index node \<and> pos < end_index node then
            (let relativePos = pos - start_index node;
                 wordStart = wordStartLoop (text_content node) relativePos;
                 wordEnd = wordEndLoop (text_content node) relativePos
             in Highlighted (substring 0 wordStart (text_content node))
                  (substring wordStart (wordEnd + 1) (text_content node))
                  (substring_from (wordEnd + 1) (text_content node)))
          else Plain (text_content node))"

text \<open>\<open>s.replace(/c/g, r)\<close> for a single code unit \<open>c\<close>.\<close>

fun replaceAll :: "nat \<Rightarrow> jsstring \<Rightarrow> jsstring \<Rightarrow> jsstring" where
  "replaceAll c r [] = []"
| "replaceAll c r (x # xs) = (if x = c then r else [x]) @ replaceAll c r xs"

record editing_state =
  nodeId :: jsstring
  cursor :: nat

text \<open>
  \<open>handleTextChange\<close> over the prop \<open>code\<close>: the string it hands to \<open>onCodeChange\<close> and the
  value it gives \<open>editingState\<close>.
\<close>

definition handleTextChange ::
  "jsstring \<Rightarrow> ParsedChild \<Rightarrow> jsstring \<Rightarrow> nat \<Rightarrow> jsstring \<times> editing_state option" where
  "handleTextChange code node newContent cursorPosition =
     (let escapedText =
            replaceAll (ch CHR ''>'') (js ''&gt;'')
              (replaceAll (ch CHR ''<'') (js ''&lt;'')
                 (replaceAll (ch CHR ''&'') (js ''&amp;'') newContent));
          newCode = substring 0 (start_index node) code @ escapedText @
                    substring_from (end_index node) code
      in (newCode, Some \<lparr>nodeId = node_id node, cursor = cursorPosition\<rparr>))"

section \<open>The order of the ids\<close>

text \<open>
  The nodes and text runs of a tree in the order in which \<open>parse\<close> completes them: the
  children from left to right, each with all that is below it, and then the node itself.
\<close>

fun post_order :: "ParsedChild \<Rightarrow> ParsedChild list" where
  "post_order (ParsedNode i cmp ps cs s e cs' ce) =
     concat (map post_order cs) @ [ParsedNode i cmp ps cs s e cs' ce]"
| "post_order (ParsedTextNode i str s e) = [ParsedTextNode i str s e]"

text \<open>The id that counter value \<open>n\<close> gives to a node (line 170) and to a text run (line 148).\<close>

definition id_of_counter :: "ParsedChild \<Rightarrow> nat \<Rightarrow> jsstring" where
  "id_of_counter x n = (if is_ParsedNode x then toString n else js ''text-'' @ toString n)"

text \<open>The ids of \<open>xs\<close> are those of the consecutive counter values from \<open>c\<close> on.\<close>

definition numbered_from :: "nat \<Rightarrow> ParsedChild list \<Rightarrow> bool" where
  "numbered_from c xs \<longleftrightarrow> (\<forall>n < length xs. node_id (xs ! n) = id_of_counter (xs ! n) (c + n))"

section \<open>The tokens that a child loop reads\<close>

text \<open>
  The test of line 138: the token at \<open>j\<close> is a close token with the tag name of the element.
\<close>

definition closes :: "Token list \<Rightarrow> jsstring option \<Rightarrow> nat \<Rightarrow> bool" where
  "closes tokens tagName j \<longleftrightarrow> ttype (tokens ! j) = Close \<and> tag (tokens ! j) = tagName"

text \<open>
  The indices that the loop of lines 136 to 167 reads as \<open>nextToken\<close>, in order, when it is
  entered with \<open>nextIndex = n\<close> and \<open>nodeIdCounter = c\<close>. It is the control flow of \<open>consume\<close>
  with only the positions kept: the tokens that a recursive call of \<open>parse\<close> consumes are
  not in the list.
\<close>

function loop_heads :: "Token list \<Rightarrow> jsstring option \<Rightarrow> nat \<Rightarrow> nat \<Rightarrow> nat list" where
  "loop_heads tokens tagName n c =
    (if n < length tokens then
       (let nextToken = tokens ! n in
        if ttype nextToken = Close \<and> tag nextToken = tagName then [n]
        else if ttype nextToken = Text then
          (if truthy (content nextToken) then n # loop_heads tokens tagName (n + 1) (c + 1)
           else n # loop_heads tokens tagName (n + 1) c)
        else if ttype nextToken = Open \<or> ttype nextToken = SelfClosing then
          (case parse tokens n tagName c of
             (Some (node, ni), c') \<Rightarrow> n # loop_heads tokens tagName ni c'
           | (None, c') \<Rightarrow> n # loop_heads tokens tagName (n + 1) c')
        else n # loop_heads tokens tagName (n + 1) c)
     else [])"
  by pat_completeness auto

text \<open>
  The tests of lines 145, 146 and 156: the loop pushes a child for the token, the text run
  of a text token whose content is not empty, or the node that \<open>parse\<close> returns for an open
  or a self-closing token.
\<close>

definition child_token :: "Token \<Rightarrow> bool" where
  "child_token t \<longleftrightarrow> (ttype t = Text \<and> truthy (content t)) \<or> ttype t = Open \<or> ttype t = SelfClosing"

text \<open>
  The loop that reads the tokens \<open>hs\<close> and pushes the children \<open>new\<close> leaves to its recursive
  calls what they consume: for every open or self-closing token at \<open>j\<close> among \<open>hs\<close>, the node
  that \<open>parse\<close> returns at \<open>j\<close> is among \<open>new\<close>, and no token from behind \<open>j\<close> up to the
  \<open>nextIndex\<close> of that call is among \<open>hs\<close>.
\<close>

definition skips :: "Token list \<Rightarrow> jsstring option \<Rightarrow> nat list \<Rightarrow> ParsedChild list \<Rightarrow> bool" where
  "skips tokens T hs new \<longleftrightarrow>
     (\<forall>j\<in>set hs. ttype (tokens ! j) = Open \<or> ttype (tokens ! j) = SelfClosing \<longrightarrow>
        (\<exists>cj child kj cj'. parse tokens j T cj = (Some (child, kj), cj') \<and> child \<in> set new \<and>
           (\<forall>m. j < m \<and> m < kj \<longrightarrow> m \<notin> set hs)))"

section \<open>Spans\<close>

text \<open>
  What the tokenizer guarantees of its tokens: none is empty, and each ends before the next
  begins.
\<close>

definition tokens_ordered :: "Token list \<Rightarrow> bool" where
  "tokens_ordered ts \<longleftrightarrow>
     (\<forall>t\<in>set ts. startIndex t < endIndex t) \<and> sorted_wrt (\<lambda>a b. endIndex a \<le> startIndex b) ts"

text \<open>
  The invariant of the spans, at every node of a tree: \<open>start \<le> contentStart \<le> contentEnd \<le>
  end\<close>; the children are in document order, each ending before the next begins; every
  child begins at or after \<open>contentStart\<close>; and, when the element has a close tag
  (\<open>contentEnd < end\<close>), every child ends at or before \<open>contentEnd\<close>.
\<close>

fun spans_ok :: "ParsedChild \<Rightarrow> bool" where
  "spans_ok (ParsedTextNode i str s e) = (s \<le> e)"
| "spans_ok (ParsedNode i cmp ps cs s e cstart cend) =
     (s \<le> cstart \<and> cstart \<le> cend \<and> cend \<le> e \<and>
      sorted_wrt (\<lambda>a b. end_index a \<le> start_index b) cs \<and>
      (\<forall>child\<in>set cs. spans_ok child \<and> start_index child \<le> end_index child \<and> cstart \<le> start_index child \<and>
         (cend < e \<longrightarrow> end_index child \<le> cend)))"

text \<open>
  The state of a child loop whose element has its open token ending at \<open>L\<close>, at the loop
  head: nothing is closed yet, and the children so far are in order, begin at or after \<open>L\<close>
  and end at or before the end of the last token consumed.
\<close>

definition loop_inv :: "Token list \<Rightarrow> nat \<Rightarrow> parse_state \<Rightarrow> bool" where
  "loop_inv tokens L st \<longleftrightarrow>
     0 < nextIndex st \<and> nextIndex st \<le> length tokens \<and>
     contentEndIndex st = L \<and> finalEndIndex st = L \<and>
     L \<le> endIndex (tokens ! (nextIndex st - 1)) \<and>
     sorted_wrt (\<lambda>a b. end_index a \<le> start_index b) (children st) \<and>
     (\<forall>child\<in>set (children st). spans_ok child \<and> start_index child \<le> end_index child \<and> L \<le> start_index child \<and>
        end_index child \<le> endIndex (tokens ! (nextIndex st - 1)))"

text \<open>The state when that loop is left.\<close>

definition loop_post :: "Token list \<Rightarrow> nat \<Rightarrow> parse_state \<Rightarrow> bool" where
  "loop_post tokens L st \<longleftrightarrow>
     0 < nextIndex st \<and> nextIndex st \<le> length tokens \<and>
     L \<le> contentEndIndex st \<and> contentEndIndex st \<le> finalEndIndex st \<and>
     finalEndIndex st \<le> endIndex (tokens ! (nextIndex st - 1)) \<and>
     sorted_wrt (\<lambda>a b. end_index a \<le> start_index b) (children st) \<and>
     (\<forall>child\<in>set (children st). spans_ok child \<and> start_index child \<le> end_index child \<and> L \<le> start_index child \<and>
        (contentEndIndex st < finalEndIndex st \<longrightarrow> end_index child \<le> contentEndIndex st))"

section \<open>Termination\<close>

lemma progress_dom:
  "parse_consume_dom (Inl (tokens, index, p, c)) \<Longrightarrow>
     (\<forall>node k c'. parse tokens index p c = (Some (node, k), c') \<longrightarrow> index < k)"
  "parse_consume_dom (Inr (tokens, tagName, st)) \<Longrightarrow>
     nextIndex st \<le> nextIndex (consume tokens tagName st)"
proof (induct rule: parse_consume.pinduct)
  case (1 tokens index parentTagName c)
  show ?case
    using 1(2)[OF _ refl _ refl refl]
    by (auto simp: parse.psimps[OF 1(1)] Let_def split: if_splits)
next
  case (2 tokens tagName st)
  show ?case
    apply (subst consume.psimps[OF 2(1)])
    using 2(2-)
    apply (auto simp: Let_def split: prod.splits option.splits)
    apply (meson Suc_leD order_trans less_imp_le)+
    done
qed

lemma progress_dom_sym:
  "parse_consume_dom (Inl (tokens, index, p, c)) \<Longrightarrow>
     (Some (node, k), c') = parse tokens index p c \<Longrightarrow> index < k"
  using progress_dom(1) by metis

termination parse
  apply (relation "measure (\<lambda>x. case x of
            Inl (tokens, index, p, c) \<Rightarrow> 2 * (length tokens - index) + 1
          | Inr (tokens, tagName, st) \<Rightarrow> 2 * (length tokens - nextIndex st) + 2)")
  apply (auto dest: progress_dom_sym)
  done

declare parse.simps [simp del] consume.simps [simp del]

lemma match_quoted_length:
  "match_quoted xs = Some (v, n) \<Longrightarrow> 0 < n \<and> n \<le> length xs"
  by (auto simp: match_quoted_def Let_def split: list.splits if_splits)

lemma match_attr_group_length:
  "match_attr_group xs = Some n \<Longrightarrow> 0 < n \<and> n \<le> length xs"
  by (auto simp: match_attr_group_def Let_def split: option.splits if_splits
           dest!: match_quoted_length)

termination match_attr_groups
  by (relation "measure length") (auto dest!: match_attr_group_length)

declare match_attr_groups.simps [simp del]

lemma match_attribute_length:
  "match_attribute xs = Some (k, v, n) \<Longrightarrow> 0 < n \<and> n \<le> length xs"
  by (auto simp: match_attribute_def Let_def split: option.splits if_splits
           dest!: match_quoted_length)

termination scan_attributes
  by (relation "measure (\<lambda>(xs, a). length xs)") (auto dest!: match_attribute_length)

lemma match_at_length: "match_at xs = Some (k, n) \<Longrightarrow> 0 < n"
  by (auto simp: match_at_def match_comment_def match_close_def match_open_def match_text_def
        Let_def split: option.splits if_splits)

lemma next_match_bounds:
  "next_match xs p = Some (q, k, n) \<Longrightarrow> p \<le> q \<and> q < p + length xs \<and> 0 < n"
proof (induction xs arbitrary: p)
  case Nil
  then show ?case by simp
next
  case (Cons x xs)
  then show ?case
    by (fastforce split: option.splits dest: match_at_length)
qed

termination tokenize_loop
  by (relation "measure (\<lambda>(s, i, t). length s - i)") (auto dest!: next_match_bounds)

declare tokenize_loop.simps [simp del]

section \<open>Progress of the parser\<close>

lemma progress:
  "parse tokens index p c = (Some (node, k), c') \<Longrightarrow> index < k"
  "nextIndex st \<le> nextIndex (consume tokens tagName st)"
proof (induct tokens index p c and tokens tagName st arbitrary: node k c' rule: parse_consume.induct)
  case (1 tokens index parentTagName c)
  show ?case
    using 1(1)[OF _ refl _ refl refl] 1(2)
    by (auto simp: parse.simps[of tokens index] Let_def split: if_splits)
next
  case (2 tokens tagName st)
  show ?case
    apply (subst consume.simps)
    using 2
    apply (auto simp: Let_def split: prod.splits option.splits)
    apply (meson Suc_leD order_trans less_imp_le)+
    done
qed

lemma parse_nonnull:
  "index < length tokens \<Longrightarrow> ttype (tokens ! index) = Open \<or> ttype (tokens ! index) = SelfClosing \<Longrightarrow>
   \<exists>node k c'. parse tokens index p c = (Some (node, k), c')"
  by (auto simp: parse.simps[of tokens index] Let_def)


lemma call_dom:
  "parse_call_consume_call_dom (Inl (stack, tokens, index, p, c)) \<Longrightarrow>
     (\<forall>r. parse_call stack tokens index p c = Inr r \<longrightarrow> r = parse tokens index p c)"
  "parse_call_consume_call_dom (Inr (stack, tokens, tagName, st)) \<Longrightarrow>
     (\<forall>st'. consume_call stack tokens tagName st = Inr st' \<longrightarrow> st' = consume tokens tagName st)"
proof (induct rule: parse_call_consume_call.pinduct)
  case (1 stack tokens index parentTagName c)
  show ?case
    using 1(2)[OF _ _ refl _ refl refl]
    by (auto simp: parse_call.psimps[OF 1(1)] parse.simps[of tokens index] Let_def
          split: if_splits sum.splits)
next
  case (2 stack tokens tagName st)
  show ?case
    apply (subst consume_call.psimps[OF 2(1)])
    apply (subst consume.simps)
    using 2(2-)
    apply (auto simp: Let_def split: prod.splits option.splits sum.splits)
    done
qed

lemma call_progress_sym:
  "parse_call_consume_call_dom (Inl (stack, tokens, index, p, c)) \<Longrightarrow>
     Inr (Some (node, k), c') = parse_call stack tokens index p c \<Longrightarrow> index < k"
  using call_dom(1)[of stack tokens index p c] progress(1)[of tokens index p c node k c'] by metis

termination parse_call
  apply (relation "measure (\<lambda>x. case x of
            Inl (stack, tokens, index, p, c) \<Rightarrow> 2 * (length tokens - index) + 1
          | Inr (stack, tokens, tagName, st) \<Rightarrow> 2 * (length tokens - nextIndex st) + 2)")
  apply (auto dest: call_progress_sym)
  done

declare parse_call.simps [simp del] consume_call.simps [simp del]


lemma call_sound:
  "parse_call stack tokens index p c = Inr r \<Longrightarrow> r = parse tokens index p c"
  "consume_call stack tokens tagName st = Inr st' \<Longrightarrow> st' = consume tokens tagName st"
proof (induct stack tokens index p c and stack tokens tagName st arbitrary: r and st'
       rule: parse_call_consume_call.induct)
  case (1 stack tokens index parentTagName c)
  show ?case
    using 1(1)[OF _ _ refl _ refl refl] 1(2)
    by (auto simp: parse_call.simps[of stack tokens index] parse.simps[of tokens index] Let_def
          split: if_splits sum.splits)
next
  case (2 stack tokens tagName st)
  show ?case
    using 2(7)
    apply (subst (asm) consume_call.simps)
    apply (subst consume.simps)
    using 2(1-6)
    apply (auto simp: Let_def split: prod.splits option.splits sum.splits if_splits)
    done
qed


lemma call_mono:
  "parse_call stack tokens index p c = Inr r \<Longrightarrow> stack \<le> stack' \<Longrightarrow>
     parse_call stack' tokens index p c = Inr r"
  "consume_call stack tokens tagName st = Inr st' \<Longrightarrow> stack \<le> stack' \<Longrightarrow>
     consume_call stack' tokens tagName st = Inr st'"
proof (induct stack tokens index p c and stack tokens tagName st arbitrary: r stack' and st' stack'
       rule: parse_call_consume_call.induct)
  case (1 stack tokens index parentTagName c)
  from 1(2) have s0: "stack \<noteq> 0" by (subst (asm) parse_call.simps) (simp split: if_splits)
  with 1(3) have s1: "stack' \<noteq> 0" "stack - 1 \<le> stack' - 1" by auto
  show ?case
    using 1(1)[OF _ _ refl _ refl refl _ _ s1(2)] 1(2) s0 s1
    by (auto simp: parse_call.simps[of stack tokens index] parse_call.simps[of stack' tokens index] Let_def
          split: if_splits sum.splits)
next
  case (2 stack tokens tagName st)
  note IH_text = 2(1)[OF _ refl] and IH_skip = 2(2)[OF _ refl] and IH_parse = 2(3)[OF _ refl]
    and IH_none = 2(4)[OF _ refl] and IH_some = 2(5)[OF _ refl] and IH_other = 2(6)[OF _ refl]
  note r = 2(7) and le = 2(8)
  define t where "t = tokens ! nextIndex st"
  show ?case
  proof (cases "nextIndex st < length tokens")
    case False
    with r show ?thesis
      by (subst consume_call.simps, subst (asm) consume_call.simps) simp
  next
    case lt: True
    show ?thesis
    proof (cases "ttype t = Close \<and> tag t = tagName")
      case True
      with r lt show ?thesis
        by (subst consume_call.simps, subst (asm) consume_call.simps) (auto simp: t_def Let_def)
    next
      case nc: False
      show ?thesis
      proof (cases "ttype t = Text")
        case tx: True
        show ?thesis
        proof (cases "truthy (content t)")
          case True
          from r lt nc tx True
          have "consume_call stack tokens tagName
               (st\<lparr>children := children st @
                      [ParsedTextNode (js ''text-'' @ toString (nodeIdCounter st))
                         (the (content t)) (startIndex t) (endIndex t)],
                   nodeIdCounter := nodeIdCounter st + 1,
                   nextIndex := nextIndex st + 1\<rparr>) = Inr st'"
            by (subst (asm) consume_call.simps) (auto simp: t_def Let_def)
          from IH_text[folded t_def, OF lt nc tx True this le] lt nc tx True
          show ?thesis
            by (subst consume_call.simps) (auto simp: t_def Let_def)
        next
          case False
          from r lt nc tx False
          have "consume_call stack tokens tagName (st\<lparr>nextIndex := nextIndex st + 1\<rparr>) = Inr st'"
            by (subst (asm) consume_call.simps) (auto simp: t_def Let_def)
          from IH_skip[folded t_def, OF lt nc tx False this le] lt nc tx False
          show ?thesis
            by (subst consume_call.simps) (auto simp: t_def Let_def)
        qed
      next
        case nt: False
        show ?thesis
        proof (cases "ttype t = Open \<or> ttype t = SelfClosing")
          case False
          from r lt nc nt False
          have "consume_call stack tokens tagName (st\<lparr>nextIndex := nextIndex st + 1\<rparr>) = Inr st'"
            by (subst (asm) consume_call.simps) (auto simp: t_def Let_def)
          from IH_other[folded t_def, OF lt nc nt False this le] lt nc nt False
          show ?thesis
            by (subst consume_call.simps) (auto simp: t_def Let_def)
        next
          case os: True
          obtain b where
            p: "parse_call stack tokens (nextIndex st) tagName (nodeIdCounter st) = Inr b"
          proof (cases "parse_call stack tokens (nextIndex st) tagName (nodeIdCounter st)")
            case (Inl e)
            with r lt nc nt os have False
              by (subst (asm) consume_call.simps) (auto simp: t_def Let_def)
            then show ?thesis ..
          next
            case (Inr b)
            then show ?thesis by (rule that)
          qed
          from IH_parse[folded t_def, OF lt nc nt os p le]
          have p': "parse_call stack' tokens (nextIndex st) tagName (nodeIdCounter st) = Inr b" .
          obtain x c1 where b: "b = (x, c1)" by (cases b) auto
          show ?thesis
          proof (cases x)
            case None
            from r lt nc nt os p b None
            have "consume_call stack tokens tagName
                    (st\<lparr>nextIndex := nextIndex st + 1, nodeIdCounter := c1\<rparr>) = Inr st'"
              by (subst (asm) consume_call.simps) (auto simp: t_def Let_def)
            from IH_none[folded t_def, OF lt nc nt os p b[symmetric] None this le] lt nc nt os p' b None
            show ?thesis
              by (subst consume_call.simps) (auto simp: t_def Let_def)
          next
            case (Some nk)
            obtain node ni where nk: "nk = (node, ni)" by (cases nk) auto
            from r lt nc nt os p b Some nk
            have "consume_call stack tokens tagName
                    (st\<lparr>children := children st @ [node], nextIndex := ni, nodeIdCounter := c1\<rparr>) = Inr st'"
              by (subst (asm) consume_call.simps) (auto simp: t_def Let_def)
            from IH_some[folded t_def, OF lt nc nt os p b[symmetric] Some nk[symmetric] this le]
              lt nc nt os p' b Some nk
            show ?thesis
              by (subst consume_call.simps) (auto simp: t_def Let_def)
          qed
        qed
      qed
    qed
  qed
qed


lemma parseDocBook_Some:
  assumes "parseDocBook wellFormed eng xmlString = Some tree"
  shows "\<exists>i k c'. parse (tokenize xmlString) i None 0 = (Some (tree, k), c')"
proof -
  from assms obtain i r where
    r: "parse_call (callStack eng) (tokenize xmlString) i None 0 = Inr r" "fst r = Some (tree, snd (the (fst r)))"
    by (auto simp: parseDocBook_def parseDocBook_try_def Let_def
          split: if_splits option.splits prod.splits sum.splits)
  from call_sound(1)[OF r(1)] r(2) show ?thesis
    by (metis prod.collapse)
qed

lemma parseDocBook_eval:
  assumes "wellFormed xmlString" and "regexFits eng xmlString"
    and "tokenize xmlString = tokens" and "tokens \<noteq> []"
    and "findIndex (\<lambda>t. ttype t = Open) tokens = Some i"
    and "parse_call stack tokens i None 0 = Inr (Some (tree, k), c')" and "stack \<le> callStack eng"
  shows "parseDocBook wellFormed eng xmlString = Some tree"
  using assms(1-5) call_mono(1)[OF assms(6,7)]
  by (simp add: parseDocBook_def parseDocBook_try_def)

lemmas tok_eval = js_def ch_def is_space_def is_name_char_def is_attr_char_def trim_def toLowerCase_def
  starts_with_def ends_with_def match_comment_def match_close_def match_quoted_def match_attr_group_def
  match_attr_groups.simps match_open_def match_text_def match_at_def match_attribute_def
  set_property_def push_match_def tokenize_loop.simps tokenize_def Let_def

lemmas parse_eval = parse.simps consume.simps resolve_def lookup_component_def lookup_props_def
  key_of_def TAG_MAP_def PROPS_MAP_def object_prototype_keys_def attr_def js_or_def truthy_def
  toString.simps Let_def js_def ch_def trim_def is_space_def

lemmas call_eval = parse_call.simps consume_call.simps parse_eval

lemma tokenize_b: "tokenize (js ''<b>x</b>'') =
  [\<lparr>ttype = Open, tag = Some (js ''b''), attributes = Some [], content = None, startIndex = 0, endIndex = 3\<rparr>,
   \<lparr>ttype = Text, tag = None, attributes = None, content = Some (js ''x''), startIndex = 3, endIndex = 4\<rparr>,
   \<lparr>ttype = Close, tag = Some (js ''b''), attributes = None, content = None, startIndex = 4, endIndex = 8\<rparr>]"
  by (simp add: tok_eval cong: let_weak_cong)

lemma parse_b_tokens:
  "parse
     [\<lparr>ttype = Open, tag = Some (js ''b''), attributes = Some [], content = None, startIndex = 0, endIndex = 3\<rparr>,
      \<lparr>ttype = Text, tag = None, attributes = None, content = Some (js ''x''), startIndex = 3, endIndex = 4\<rparr>,
      \<lparr>ttype = Close, tag = Some (js ''b''), attributes = None, content = None, startIndex = 4, endIndex = 8\<rparr>]
     0 None 0 =
   (Some (ParsedNode (js ''1'') (Elem (js ''div'')) [(js ''data-id'', js ''1'')]
            [ParsedTextNode (js ''text-0'') (js ''x'') 3 4] 0 8 3 4, 3), 2)"
  by (simp add: parse_eval cong: let_weak_cong)

lemma parse_call_b_tokens:
  "parse_call (Suc 0)
     [\<lparr>ttype = Open, tag = Some (js ''b''), attributes = Some [], content = None, startIndex = 0, endIndex = 3\<rparr>,
      \<lparr>ttype = Text, tag = None, attributes = None, content = Some (js ''x''), startIndex = 3, endIndex = 4\<rparr>,
      \<lparr>ttype = Close, tag = Some (js ''b''), attributes = None, content = None, startIndex = 4, endIndex = 8\<rparr>]
     0 None 0 =
   Inr (Some (ParsedNode (js ''1'') (Elem (js ''div'')) [(js ''data-id'', js ''1'')]
            [ParsedTextNode (js ''text-0'') (js ''x'') 3 4] 0 8 3 4, 3), 2)"
  by (simp add: call_eval cong: let_weak_cong)

lemma parseDocBook_b:
  "wellFormed (js ''<b>x</b>'') \<Longrightarrow> regexFits eng (js ''<b>x</b>'') \<Longrightarrow> 0 < callStack eng \<Longrightarrow>
   parseDocBook wellFormed eng (js ''<b>x</b>'') =
     Some (ParsedNode (js ''1'') (Elem (js ''div'')) [(js ''data-id'', js ''1'')]
            [ParsedTextNode (js ''text-0'') (js ''x'') 3 4] 0 8 3 4)"
  by (rule parseDocBook_eval[OF _ _ tokenize_b _ _ parse_call_b_tokens]) simp_all






section \<open>Variant resolution: links and titles\<close>

lemma parse_node:
  assumes "index < length tokens"
    and "ttype (tokens ! index) = Open \<or> ttype (tokens ! index) = SelfClosing"
    and "parse tokens index p c = (Some (node, k), c')"
  shows "component node = fst (resolve (tokens ! index) p)"
    and "props node = AList.update (js ''data-id'') (node_id node) (snd (resolve (tokens ! index) p))"
    and "start_index node = startIndex (tokens ! index)"
    and "content_start_index node = endIndex (tokens ! index)"
  using assms by (auto simp: parse.simps[of tokens index] Let_def split: if_splits)

lemma resolve_link:
  assumes "tag token = Some (js ''ulink'') \<or> tag token = Some (js ''link'')"
  shows "resolve token p =
     (Elem (js ''a''),
      if truthy (js_or (attr token (js ''url'')) (attr token (js ''xlink:href'')))
      then [(js ''href'', the (js_or (attr token (js ''url'')) (attr token (js ''xlink:href'')))),
            (js ''target'', js ''_blank''), (js ''rel'', js ''noopener noreferrer'')]
      else [])"
proof -
  have c: "lookup_component (Some (js ''ulink'')) = Elem (js ''a'')"
    "lookup_component (Some (js ''link'')) = Elem (js ''a'')"
    by (simp_all add: lookup_component_def key_of_def TAG_MAP_def js_def ch_def)
  have p: "lookup_props (Some (js ''ulink'')) = []" "lookup_props (Some (js ''link'')) = []"
    by (simp_all add: lookup_props_def key_of_def PROPS_MAP_def js_def ch_def)
  have ne: "js ''ulink'' \<noteq> js ''title''" "js ''ulink'' \<noteq> js ''emphasis''"
    "js ''link'' \<noteq> js ''title''" "js ''link'' \<noteq> js ''emphasis''"
    "js ''target'' \<noteq> js ''href''" "js ''rel'' \<noteq> js ''href''" "js ''rel'' \<noteq> js ''target''"
    "js ''href'' \<noteq> js ''target''" "js ''href'' \<noteq> js ''rel''" "js ''target'' \<noteq> js ''rel''"
    by (simp_all add: js_def ch_def)
  define u where "u = js_or (attr token (js ''url'')) (attr token (js ''xlink:href''))"
  have r: "resolve token p =
      (case u of
         Some v \<Rightarrow> if v \<noteq> [] then
            (Elem (js ''a''),
                   AList.update (js ''rel'') (js ''noopener noreferrer'')
                     (AList.update (js ''target'') (js ''_blank'')
                        (AList.update (js ''href'') v [])))
            else (Elem (js ''a''), [])
       | None \<Rightarrow> (Elem (js ''a''), []))"
    using assms
    by (elim disjE) (simp_all add: resolve_def Let_def c p ne u_def split: option.splits)
  show ?thesis
    unfolding r u_def[symmetric]
    by (cases u) (simp_all add: truthy_def ne)
qed

lemma tokenize_ulink:
  "tokenize (js ''<ulink url=\"https://x.test/\">x</ulink>'') =
   [\<lparr>ttype = Open, tag = Some (js ''ulink''), attributes = Some [(js ''url'', js ''https://x.test/'')],
      content = None, startIndex = 0, endIndex = 29\<rparr>,
    \<lparr>ttype = Text, tag = None, attributes = None, content = Some (js ''x''), startIndex = 29,
      endIndex = 30\<rparr>,
    \<lparr>ttype = Close, tag = Some (js ''ulink''), attributes = None, content = None, startIndex = 30,
      endIndex = 38\<rparr>]"
  by (simp add: tok_eval cong: let_weak_cong)

lemma parse_ulink_tokens:
  "parse
   [\<lparr>ttype = Open, tag = Some (js ''ulink''), attributes = Some [(js ''url'', js ''https://x.test/'')],
      content = None, startIndex = 0, endIndex = 29\<rparr>,
    \<lparr>ttype = Text, tag = None, attributes = None, content = Some (js ''x''), startIndex = 29,
      endIndex = 30\<rparr>,
    \<lparr>ttype = Close, tag = Some (js ''ulink''), attributes = None, content = None, startIndex = 30,
      endIndex = 38\<rparr>] 0 None 0 =
   (Some (ParsedNode (js ''1'') (Elem (js ''a''))
     [(js ''href'', js ''https://x.test/''), (js ''target'', js ''_blank''),
      (js ''rel'', js ''noopener noreferrer''), (js ''data-id'', js ''1'')]
     [ParsedTextNode (js ''text-0'') (js ''x'') 29 30] 0 38 29 30, 3), 2)"
  by (simp add: parse_eval cong: let_weak_cong)

lemma parse_call_ulink_tokens:
  "parse_call (Suc 0)
   [\<lparr>ttype = Open, tag = Some (js ''ulink''), attributes = Some [(js ''url'', js ''https://x.test/'')],
      content = None, startIndex = 0, endIndex = 29\<rparr>,
    \<lparr>ttype = Text, tag = None, attributes = None, content = Some (js ''x''), startIndex = 29,
      endIndex = 30\<rparr>,
    \<lparr>ttype = Close, tag = Some (js ''ulink''), attributes = None, content = None, startIndex = 30,
      endIndex = 38\<rparr>] 0 None 0 =
   Inr (Some (ParsedNode (js ''1'') (Elem (js ''a''))
     [(js ''href'', js ''https://x.test/''), (js ''target'', js ''_blank''),
      (js ''rel'', js ''noopener noreferrer''), (js ''data-id'', js ''1'')]
     [ParsedTextNode (js ''text-0'') (js ''x'') 29 30] 0 38 29 30, 3), 2)"
  by (simp add: call_eval cong: let_weak_cong)

lemma parse_ulink:
  "wellFormed (js ''<ulink url=\"https://x.test/\">x</ulink>'') \<Longrightarrow>
   regexFits eng (js ''<ulink url=\"https://x.test/\">x</ulink>'') \<Longrightarrow> 0 < callStack eng \<Longrightarrow>
   parseDocBook wellFormed eng (js ''<ulink url=\"https://x.test/\">x</ulink>'') =
   Some (ParsedNode (js ''1'') (Elem (js ''a''))
     [(js ''href'', js ''https://x.test/''), (js ''target'', js ''_blank''),
      (js ''rel'', js ''noopener noreferrer''), (js ''data-id'', js ''1'')]
     [ParsedTextNode (js ''text-0'') (js ''x'') 29 30] 0 38 29 30)"
  by (rule parseDocBook_eval[OF _ _ tokenize_ulink _ _ parse_call_ulink_tokens]) simp_all

text \<open>
  C6. For an element whose tag is \<open>ulink\<close> or \<open>link\<close>, the component is \<open>a\<close> and the
  target is the \<open>url\<close> attribute when that is a non-empty string, and the \<open>xlink:href\<close>
  attribute otherwise. When the target so read is a non-empty string, the props carry it
  as \<open>href\<close> together with target \<open>_blank\<close> and rel \<open>noopener noreferrer\<close>; when it is not,
  they carry none of the three. On the input \<open><ulink url="https://x.test/">x</ulink>\<close> the
  target is \<open>https://x.test/\<close>.
\<close>

theorem link_target:
  "(index < length tokens \<and> (ttype (tokens ! index) = Open \<or> ttype (tokens ! index) = SelfClosing) \<and>
    (tag (tokens ! index) = Some (js ''ulink'') \<or> tag (tokens ! index) = Some (js ''link'')) \<and>
    parse tokens index parentTagName c = (Some (node, k), c') \<longrightarrow>
      component node = Elem (js ''a'') \<and>
      (let url = attr (tokens ! index) (js ''url'');
           href = attr (tokens ! index) (js ''xlink:href'');
           target = (if truthy url then url else href)
       in (truthy target \<longrightarrow>
             map_of (props node) (js ''href'') = target \<and>
             map_of (props node) (js ''target'') = Some (js ''_blank'') \<and>
             map_of (props node) (js ''rel'') = Some (js ''noopener noreferrer'')) \<and>
          (\<not> truthy target \<longrightarrow>
             map_of (props node) (js ''href'') = None \<and>
             map_of (props node) (js ''target'') = None \<and>
             map_of (props node) (js ''rel'') = None))) \<and>
   (wellFormed (js ''<ulink url=\"https://x.test/\">x</ulink>'') \<and>
    regexFits eng (js ''<ulink url=\"https://x.test/\">x</ulink>'') \<and> 0 < callStack eng \<longrightarrow>
      (case parseDocBook wellFormed eng (js ''<ulink url=\"https://x.test/\">x</ulink>'') of
         None \<Rightarrow> False
       | Some tree \<Rightarrow>
           component tree = Elem (js ''a'') \<and>
           map_of (props tree) (js ''href'') = Some (js ''https://x.test/'') \<and>
           map_of (props tree) (js ''target'') = Some (js ''_blank'') \<and>
           map_of (props tree) (js ''rel'') = Some (js ''noopener noreferrer'')))"
proof (intro conjI impI)
  assume a: "index < length tokens \<and> (ttype (tokens ! index) = Open \<or> ttype (tokens ! index) = SelfClosing) \<and>
    (tag (tokens ! index) = Some (js ''ulink'') \<or> tag (tokens ! index) = Some (js ''link'')) \<and>
    parse tokens index parentTagName c = (Some (node, k), c')"
  then have c: "component node = fst (resolve (tokens ! index) parentTagName)"
    and p: "props node = AList.update (js ''data-id'') (node_id node) (snd (resolve (tokens ! index) parentTagName))"
    using parse_node by blast+
  from a have r: "resolve (tokens ! index) parentTagName =
     (Elem (js ''a''),
      if truthy (js_or (attr (tokens ! index) (js ''url'')) (attr (tokens ! index) (js ''xlink:href'')))
      then [(js ''href'', the (js_or (attr (tokens ! index) (js ''url'')) (attr (tokens ! index) (js ''xlink:href'')))),
            (js ''target'', js ''_blank''), (js ''rel'', js ''noopener noreferrer'')]
      else [])"
    using resolve_link by blast
  show "component node = Elem (js ''a'')" using c r by simp
  show "let url = attr (tokens ! index) (js ''url'');
           href = attr (tokens ! index) (js ''xlink:href'');
           target = (if truthy url then url else href)
       in (truthy target \<longrightarrow>
             map_of (props node) (js ''href'') = target \<and>
             map_of (props node) (js ''target'') = Some (js ''_blank'') \<and>
             map_of (props node) (js ''rel'') = Some (js ''noopener noreferrer'')) \<and>
          (\<not> truthy target \<longrightarrow>
             map_of (props node) (js ''href'') = None \<and>
             map_of (props node) (js ''target'') = None \<and>
             map_of (props node) (js ''rel'') = None)"
    unfolding p r
    by (auto simp: Let_def update_conv' js_or_def truthy_def js_def ch_def split: option.splits)
next
  assume "wellFormed (js ''<ulink url=\"https://x.test/\">x</ulink>'') \<and>
    regexFits eng (js ''<ulink url=\"https://x.test/\">x</ulink>'') \<and> 0 < callStack eng"
  then have "parseDocBook wellFormed eng (js ''<ulink url=\"https://x.test/\">x</ulink>'') =
   Some (ParsedNode (js ''1'') (Elem (js ''a''))
     [(js ''href'', js ''https://x.test/''), (js ''target'', js ''_blank''),
      (js ''rel'', js ''noopener noreferrer''), (js ''data-id'', js ''1'')]
     [ParsedTextNode (js ''text-0'') (js ''x'') 29 30] 0 38 29 30)"
    by (simp add: parse_ulink)
  then show "case parseDocBook wellFormed eng (js ''<ulink url=\"https://x.test/\">x</ulink>'') of
         None \<Rightarrow> False
       | Some tree \<Rightarrow>
           component tree = Elem (js ''a'') \<and>
           map_of (props tree) (js ''href'') = Some (js ''https://x.test/'') \<and>
           map_of (props tree) (js ''target'') = Some (js ''_blank'') \<and>
           map_of (props tree) (js ''rel'') = Some (js ''noopener noreferrer'')"
    by (simp add: js_def ch_def)
qed

theorem link_target_witness:
  "component (ParsedNode (js ''1'') (Elem (js ''a''))
     [(js ''href'', js ''https://x.test/''), (js ''target'', js ''_blank''),
      (js ''rel'', js ''noopener noreferrer''), (js ''data-id'', js ''1'')]
     [ParsedTextNode (js ''text-0'') (js ''x'') 29 30] 0 38 29 30) = Elem (js ''a'') \<and>
   parseDocBook (\<lambda>s. True) \<lparr>callStack = 1, regexFits = (\<lambda>s. True)\<rparr>
     (js ''<ulink url=\"https://x.test/\">x</ulink>'') \<noteq> None"
  using link_target[of 0 "tokenize (js ''<ulink url=\"https://x.test/\">x</ulink>'')" None 0
      "ParsedNode (js ''1'') (Elem (js ''a''))
     [(js ''href'', js ''https://x.test/''), (js ''target'', js ''_blank''),
      (js ''rel'', js ''noopener noreferrer''), (js ''data-id'', js ''1'')]
     [ParsedTextNode (js ''text-0'') (js ''x'') 29 30] 0 38 29 30" 3 2 "\<lambda>s. True"
      "\<lparr>callStack = 1, regexFits = (\<lambda>s. True)\<rparr>"]
  by (simp add: tokenize_ulink parse_ulink_tokens parse_ulink)

lemma resolve_title:
  assumes "tag token = Some (js ''title'')"
  shows "resolve token p =
     (if p = Some (js ''article'') then
        (Elem (js ''h1''), [(js ''className'', js ''text-3xl font-bold mb-4 border-b border-gray-300 pb-2 text-gray-900'')])
      else if p = Some (js ''sect1'') then
        (Elem (js ''h2''), [(js ''className'', js ''text-2xl font-bold mb-3 mt-6 text-gray-900'')])
      else if p = Some (js ''sect2'') then
        (Elem (js ''h3''), [(js ''className'', js ''text-xl font-bold mb-2 mt-4 text-gray-900'')])
      else (Elem (js ''strong''), [(js ''className'', js ''font-bold text-lg block text-gray-800'')]))"
proof -
  have h: "lookup_props (Some (js ''h1'')) = [(js ''className'', js ''text-3xl font-bold mb-4 border-b border-gray-300 pb-2 text-gray-900'')]"
    "lookup_props (Some (js ''h2'')) = [(js ''className'', js ''text-2xl font-bold mb-3 mt-6 text-gray-900'')]"
    "lookup_props (Some (js ''h3'')) = [(js ''className'', js ''text-xl font-bold mb-2 mt-4 text-gray-900'')]"
    by (simp_all add: lookup_props_def key_of_def PROPS_MAP_def js_def ch_def)
  show ?thesis
    using assms by (simp add: resolve_def Let_def h)
qed

lemma consume_children:
  "(\<And>j cj child kj cj'. j < length tokens \<Longrightarrow>
       parse tokens j (tag (tokens ! index)) cj = (Some (child, kj), cj') \<Longrightarrow> Q child) \<Longrightarrow>
   (\<And>i s a b. Q (ParsedTextNode i s a b)) \<Longrightarrow>
   parse tokens index p c = (Some (node, k), c') \<Longrightarrow>
   \<forall>child\<in>set (node_children node). Q child"
  "(\<forall>child\<in>set (children st). Q child) \<Longrightarrow>
   (\<And>j cj child kj cj'. j < length tokens \<Longrightarrow>
       parse tokens j T cj = (Some (child, kj), cj') \<Longrightarrow> Q child) \<Longrightarrow>
   (\<And>i s a b. Q (ParsedTextNode i s a b)) \<Longrightarrow>
   \<forall>child\<in>set (children (consume tokens T st)). Q child"
proof (induct tokens index p c and tokens T st arbitrary: node k c' rule: parse_consume.induct)
  case (1 tokens index parentTagName c)
  show ?case
    using 1(1)[OF _ refl _ refl refl] 1(2-)
    by (auto simp: parse.simps[of tokens index] Let_def split: if_splits)
next
  case (2 tokens tagName st)
  note IH = 2(1,2,4,5,6) and Qs = 2(7,8,9)
  show ?case
  proof (cases "nextIndex st < length tokens")
    case False
    then show ?thesis using Qs(1) by (subst consume.simps) simp
  next
    case lt: True
    define t where "t = tokens ! nextIndex st"
    show ?thesis
      apply (subst consume.simps)
      using lt Qs IH
      apply (auto simp: Let_def t_def[symmetric] split: prod.splits option.splits)
      done
  qed
qed
lemma tokenize_sample:
  "tokenize (js ''<article><title>Welcome</title><para>Hi <emphasis role=\"bold\">there</emphasis></para></article>'') =
   [\<lparr>ttype = Open, tag = Some (js ''article''), attributes = Some [], content = None,
      startIndex = 0, endIndex = 9\<rparr>,
    \<lparr>ttype = Open, tag = Some (js ''title''), attributes = Some [], content = None,
      startIndex = 9, endIndex = 16\<rparr>,
    \<lparr>ttype = Text, tag = None, attributes = None, content = Some (js ''Welcome''),
      startIndex = 16, endIndex = 23\<rparr>,
    \<lparr>ttype = Close, tag = Some (js ''title''), attributes = None, content = None,
      startIndex = 23, endIndex = 31\<rparr>,
    \<lparr>ttype = Open, tag = Some (js ''para''), attributes = Some [], content = None,
      startIndex = 31, endIndex = 37\<rparr>,
    \<lparr>ttype = Text, tag = None, attributes = None, content = Some (js ''Hi''),
      startIndex = 37, endIndex = 40\<rparr>,
    \<lparr>ttype = Open, tag = Some (js ''emphasis''), attributes = Some [(js ''role'', js ''bold'')],
      content = None, startIndex = 40, endIndex = 62\<rparr>,
    \<lparr>ttype = Text, tag = None, attributes = None, content = Some (js ''there''),
      startIndex = 62, endIndex = 67\<rparr>,
    \<lparr>ttype = Close, tag = Some (js ''emphasis''), attributes = None, content = None,
      startIndex = 67, endIndex = 78\<rparr>,
    \<lparr>ttype = Close, tag = Some (js ''para''), attributes = None, content = None,
      startIndex = 78, endIndex = 85\<rparr>,
    \<lparr>ttype = Close, tag = Some (js ''article''), attributes = None, content = None,
      startIndex = 85, endIndex = 95\<rparr>]"
  by (simp add: tok_eval cong: let_weak_cong)

lemma parse_sample_tokens:
  "parse
   [\<lparr>ttype = Open, tag = Some (js ''article''), attributes = Some [], content = None,
      startIndex = 0, endIndex = 9\<rparr>,
    \<lparr>ttype = Open, tag = Some (js ''title''), attributes = Some [], content = None,
      startIndex = 9, endIndex = 16\<rparr>,
    \<lparr>ttype = Text, tag = None, attributes = None, content = Some (js ''Welcome''),
      startIndex = 16, endIndex = 23\<rparr>,
    \<lparr>ttype = Close, tag = Some (js ''title''), attributes = None, content = None,
      startIndex = 23, endIndex = 31\<rparr>,
    \<lparr>ttype = Open, tag = Some (js ''para''), attributes = Some [], content = None,
      startIndex = 31, endIndex = 37\<rparr>,
    \<lparr>ttype = Text, tag = None, attributes = None, content = Some (js ''Hi''),
      startIndex = 37, endIndex = 40\<rparr>,
    \<lparr>ttype = Open, tag = Some (js ''emphasis''), attributes = Some [(js ''role'', js ''bold'')],
      content = None, startIndex = 40, endIndex = 62\<rparr>,
    \<lparr>ttype = Text, tag = None, attributes = None, content = Some (js ''there''),
      startIndex = 62, endIndex = 67\<rparr>,
    \<lparr>ttype = Close, tag = Some (js ''emphasis''), attributes = None, content = None,
      startIndex = 67, endIndex = 78\<rparr>,
    \<lparr>ttype = Close, tag = Some (js ''para''), attributes = None, content = None,
      startIndex = 78, endIndex = 85\<rparr>,
    \<lparr>ttype = Close, tag = Some (js ''article''), attributes = None, content = None,
      startIndex = 85, endIndex = 95\<rparr>] 0 None 0 =
   (Some (ParsedNode (js ''6'') (Elem (js ''div'')) [(js ''data-id'', js ''6'')]
      [ParsedNode (js ''1'') (Elem (js ''h1''))
         [(js ''className'', js ''text-3xl font-bold mb-4 border-b border-gray-300 pb-2 text-gray-900''),
          (js ''data-id'', js ''1'')]
         [ParsedTextNode (js ''text-0'') (js ''Welcome'') 16 23] 9 31 16 23,
       ParsedNode (js ''5'') (Elem (js ''p'')) [(js ''data-id'', js ''5'')]
         [ParsedTextNode (js ''text-2'') (js ''Hi'') 37 40,
          ParsedNode (js ''4'') (Elem (js ''strong''))
            [(js ''className'', js ''font-bold text-teal-600''), (js ''data-id'', js ''4'')]
            [ParsedTextNode (js ''text-3'') (js ''there'') 62 67] 40 78 62 67]
         31 85 37 78]
      0 95 9 85, 11), 7)"
  by (simp add: parse_eval cong: let_weak_cong)
lemma parse_call_sample_tokens:
  "parse_call 3
   [\<lparr>ttype = Open, tag = Some (js ''article''), attributes = Some [], content = None,
      startIndex = 0, endIndex = 9\<rparr>,
    \<lparr>ttype = Open, tag = Some (js ''title''), attributes = Some [], content = None,
      startIndex = 9, endIndex = 16\<rparr>,
    \<lparr>ttype = Text, tag = None, attributes = None, content = Some (js ''Welcome''),
      startIndex = 16, endIndex = 23\<rparr>,
    \<lparr>ttype = Close, tag = Some (js ''title''), attributes = None, content = None,
      startIndex = 23, endIndex = 31\<rparr>,
    \<lparr>ttype = Open, tag = Some (js ''para''), attributes = Some [], content = None,
      startIndex = 31, endIndex = 37\<rparr>,
    \<lparr>ttype = Text, tag = None, attributes = None, content = Some (js ''Hi''),
      startIndex = 37, endIndex = 40\<rparr>,
    \<lparr>ttype = Open, tag = Some (js ''emphasis''), attributes = Some [(js ''role'', js ''bold'')],
      content = None, startIndex = 40, endIndex = 62\<rparr>,
    \<lparr>ttype = Text, tag = None, attributes = None, content = Some (js ''there''),
      startIndex = 62, endIndex = 67\<rparr>,
    \<lparr>ttype = Close, tag = Some (js ''emphasis''), attributes = None, content = None,
      startIndex = 67, endIndex = 78\<rparr>,
    \<lparr>ttype = Close, tag = Some (js ''para''), attributes = None, content = None,
      startIndex = 78, endIndex = 85\<rparr>,
    \<lparr>ttype = Close, tag = Some (js ''article''), attributes = None, content = None,
      startIndex = 85, endIndex = 95\<rparr>] 0 None 0 =
   Inr (Some (ParsedNode (js ''6'') (Elem (js ''div'')) [(js ''data-id'', js ''6'')]
      [ParsedNode (js ''1'') (Elem (js ''h1''))
         [(js ''className'', js ''text-3xl font-bold mb-4 border-b border-gray-300 pb-2 text-gray-900''),
          (js ''data-id'', js ''1'')]
         [ParsedTextNode (js ''text-0'') (js ''Welcome'') 16 23] 9 31 16 23,
       ParsedNode (js ''5'') (Elem (js ''p'')) [(js ''data-id'', js ''5'')]
         [ParsedTextNode (js ''text-2'') (js ''Hi'') 37 40,
          ParsedNode (js ''4'') (Elem (js ''strong''))
            [(js ''className'', js ''font-bold text-teal-600''), (js ''data-id'', js ''4'')]
            [ParsedTextNode (js ''text-3'') (js ''there'') 62 67] 40 78 62 67]
         31 85 37 78]
      0 95 9 85, 11), 7)"
  by (simp add: call_eval cong: let_weak_cong)

lemma parse_sample:
  "wellFormed (js ''<article><title>Welcome</title><para>Hi <emphasis role=\"bold\">there</emphasis></para></article>'') \<Longrightarrow>
   regexFits eng (js ''<article><title>Welcome</title><para>Hi <emphasis role=\"bold\">there</emphasis></para></article>'') \<Longrightarrow>
   3 \<le> callStack eng \<Longrightarrow>
   parseDocBook wellFormed eng (js ''<article><title>Welcome</title><para>Hi <emphasis role=\"bold\">there</emphasis></para></article>'') =
   Some (ParsedNode (js ''6'') (Elem (js ''div'')) [(js ''data-id'', js ''6'')]
      [ParsedNode (js ''1'') (Elem (js ''h1''))
         [(js ''className'', js ''text-3xl font-bold mb-4 border-b border-gray-300 pb-2 text-gray-900''),
          (js ''data-id'', js ''1'')]
         [ParsedTextNode (js ''text-0'') (js ''Welcome'') 16 23] 9 31 16 23,
       ParsedNode (js ''5'') (Elem (js ''p'')) [(js ''data-id'', js ''5'')]
         [ParsedTextNode (js ''text-2'') (js ''Hi'') 37 40,
          ParsedNode (js ''4'') (Elem (js ''strong''))
            [(js ''className'', js ''font-bold text-teal-600''), (js ''data-id'', js ''4'')]
            [ParsedTextNode (js ''text-3'') (js ''there'') 62 67] 40 78 62 67]
         31 85 37 78]
      0 95 9 85)"
  by (rule parseDocBook_eval[OF _ _ tokenize_sample _ _ parse_call_sample_tokens]) simp_all

text \<open>
  C5. A \<open>title\<close> element takes its component from the tag of the call that parses it:
  \<open>article\<close> gives \<open>h1\<close>, \<open>sect1\<close> gives \<open>h2\<close>, \<open>sect2\<close> gives \<open>h3\<close>, and any other tag or none
  gives \<open>strong\<close> with the class \<open>font-bold text-lg block text-gray-800\<close>. That tag is the
  tag of the immediate parent: every element among the children of a node was returned by a
  call of \<open>parse\<close> whose \<open>parentTagName\<close> is the tag of the node's own token. On the sample
  input the title is an \<open>h1\<close>, the emphasis with role \<open>bold\<close> is a \<open>strong\<close>, and the text
  \<open>there\<close> has the span 62 to 67, where it stands in the input.
\<close>

theorem title_variant:
  "(index < length tokens \<and> (ttype (tokens ! index) = Open \<or> ttype (tokens ! index) = SelfClosing) \<and>
    tag (tokens ! index) = Some (js ''title'') \<and>
    parse tokens index parentTagName c = (Some (node, k), c') \<longrightarrow>
      component node =
        (if parentTagName = Some (js ''article'') then Elem (js ''h1'')
         else if parentTagName = Some (js ''sect1'') then Elem (js ''h2'')
         else if parentTagName = Some (js ''sect2'') then Elem (js ''h3'')
         else Elem (js ''strong'')) \<and>
      map_of (props node) (js ''className'') =
        (if parentTagName = Some (js ''article'') then
           Some (js ''text-3xl font-bold mb-4 border-b border-gray-300 pb-2 text-gray-900'')
         else if parentTagName = Some (js ''sect1'') then
           Some (js ''text-2xl font-bold mb-3 mt-6 text-gray-900'')
         else if parentTagName = Some (js ''sect2'') then
           Some (js ''text-xl font-bold mb-2 mt-4 text-gray-900'')
         else Some (js ''font-bold text-lg block text-gray-800''))) \<and>
   (parse tokens index parentTagName c = (Some (node, k), c') \<longrightarrow>
      (\<forall>child\<in>set (node_children node). is_ParsedNode child \<longrightarrow>
         (\<exists>j cj kj cj'. j < length tokens \<and>
            parse tokens j (tag (tokens ! index)) cj = (Some (child, kj), cj')))) \<and>
   (wellFormed (js ''<article><title>Welcome</title><para>Hi <emphasis role=\"bold\">there</emphasis></para></article>'') \<and>
    regexFits eng (js ''<article><title>Welcome</title><para>Hi <emphasis role=\"bold\">there</emphasis></para></article>'') \<and>
    3 \<le> callStack eng \<longrightarrow>
      parseDocBook wellFormed eng (js ''<article><title>Welcome</title><para>Hi <emphasis role=\"bold\">there</emphasis></para></article>'') =
      Some (ParsedNode (js ''6'') (Elem (js ''div'')) [(js ''data-id'', js ''6'')]
        [ParsedNode (js ''1'') (Elem (js ''h1''))
           [(js ''className'', js ''text-3xl font-bold mb-4 border-b border-gray-300 pb-2 text-gray-900''),
            (js ''data-id'', js ''1'')]
           [ParsedTextNode (js ''text-0'') (js ''Welcome'') 16 23] 9 31 16 23,
         ParsedNode (js ''5'') (Elem (js ''p'')) [(js ''data-id'', js ''5'')]
           [ParsedTextNode (js ''text-2'') (js ''Hi'') 37 40,
            ParsedNode (js ''4'') (Elem (js ''strong''))
              [(js ''className'', js ''font-bold text-teal-600''), (js ''data-id'', js ''4'')]
              [ParsedTextNode (js ''text-3'') (js ''there'') 62 67] 40 78 62 67]
           31 85 37 78]
        0 95 9 85) \<and>
      substring 62 67 (js ''<article><title>Welcome</title><para>Hi <emphasis role=\"bold\">there</emphasis></para></article>'') = js ''there'')"
proof (intro conjI impI)
  assume a: "index < length tokens \<and> (ttype (tokens ! index) = Open \<or> ttype (tokens ! index) = SelfClosing) \<and>
    tag (tokens ! index) = Some (js ''title'') \<and>
    parse tokens index parentTagName c = (Some (node, k), c')"
  then have c: "component node = fst (resolve (tokens ! index) parentTagName)"
    and p: "props node = AList.update (js ''data-id'') (node_id node) (snd (resolve (tokens ! index) parentTagName))"
    using parse_node by blast+
  from a have t: "tag (tokens ! index) = Some (js ''title'')" by simp
  show "component node =
        (if parentTagName = Some (js ''article'') then Elem (js ''h1'')
         else if parentTagName = Some (js ''sect1'') then Elem (js ''h2'')
         else if parentTagName = Some (js ''sect2'') then Elem (js ''h3'')
         else Elem (js ''strong''))"
    unfolding c resolve_title[OF t] by simp
  have ne: "js ''data-id'' \<noteq> js ''className''" by (simp add: js_def ch_def)
  show "map_of (props node) (js ''className'') =
        (if parentTagName = Some (js ''article'') then
           Some (js ''text-3xl font-bold mb-4 border-b border-gray-300 pb-2 text-gray-900'')
         else if parentTagName = Some (js ''sect1'') then
           Some (js ''text-2xl font-bold mb-3 mt-6 text-gray-900'')
         else if parentTagName = Some (js ''sect2'') then
           Some (js ''text-xl font-bold mb-2 mt-4 text-gray-900'')
         else Some (js ''font-bold text-lg block text-gray-800''))"
    unfolding p resolve_title[OF t] using ne by (simp add: update_conv')
next
  assume r: "parse tokens index parentTagName c = (Some (node, k), c')"
  show "\<forall>child\<in>set (node_children node). is_ParsedNode child \<longrightarrow>
         (\<exists>j cj kj cj'. j < length tokens \<and>
            parse tokens j (tag (tokens ! index)) cj = (Some (child, kj), cj'))"
    by (rule consume_children(1)[OF _ _ r]) auto
next
  assume "wellFormed (js ''<article><title>Welcome</title><para>Hi <emphasis role=\"bold\">there</emphasis></para></article>'') \<and>
    regexFits eng (js ''<article><title>Welcome</title><para>Hi <emphasis role=\"bold\">there</emphasis></para></article>'') \<and>
    3 \<le> callStack eng"
  then show "parseDocBook wellFormed eng (js ''<article><title>Welcome</title><para>Hi <emphasis role=\"bold\">there</emphasis></para></article>'') =
      Some (ParsedNode (js ''6'') (Elem (js ''div'')) [(js ''data-id'', js ''6'')]
        [ParsedNode (js ''1'') (Elem (js ''h1''))
           [(js ''className'', js ''text-3xl font-bold mb-4 border-b border-gray-300 pb-2 text-gray-900''),
            (js ''data-id'', js ''1'')]
           [ParsedTextNode (js ''text-0'') (js ''Welcome'') 16 23] 9 31 16 23,
         ParsedNode (js ''5'') (Elem (js ''p'')) [(js ''data-id'', js ''5'')]
           [ParsedTextNode (js ''text-2'') (js ''Hi'') 37 40,
            ParsedNode (js ''4'') (Elem (js ''strong''))
              [(js ''className'', js ''font-bold text-teal-600''), (js ''data-id'', js ''4'')]
              [ParsedTextNode (js ''text-3'') (js ''there'') 62 67] 40 78 62 67]
           31 85 37 78]
        0 95 9 85)"
    by (simp add: parse_sample)
next
  show "substring 62 67 (js ''<article><title>Welcome</title><para>Hi <emphasis role=\"bold\">there</emphasis></para></article>'') = js ''there''"
    by (simp add: substring_def js_def)
qed
lemma parse_title_tokens:
  "parse
     [\<lparr>ttype = Open, tag = Some (js ''title''), attributes = Some [], content = None,
        startIndex = 0, endIndex = 7\<rparr>,
      \<lparr>ttype = Close, tag = Some (js ''title''), attributes = None, content = None,
        startIndex = 7, endIndex = 15\<rparr>] 0 (Some (js ''sect1'')) 0 =
   (Some (ParsedNode (js ''0'') (Elem (js ''h2''))
      [(js ''className'', js ''text-2xl font-bold mb-3 mt-6 text-gray-900''), (js ''data-id'', js ''0'')]
      [] 0 15 7 7, 2), 1)"
  by (simp add: parse_eval cong: let_weak_cong)

theorem title_variant_witness:
  "component (ParsedNode (js ''0'') (Elem (js ''h2''))
      [(js ''className'', js ''text-2xl font-bold mb-3 mt-6 text-gray-900''), (js ''data-id'', js ''0'')]
      [] 0 15 7 7) = Elem (js ''h2'') \<and>
   parseDocBook (\<lambda>s. True) \<lparr>callStack = 3, regexFits = (\<lambda>s. True)\<rparr>
     (js ''<article><title>Welcome</title><para>Hi <emphasis role=\"bold\">there</emphasis></para></article>'') \<noteq> None"
  using title_variant[of 0
     "[\<lparr>ttype = Open, tag = Some (js ''title''), attributes = Some [], content = None,
        startIndex = 0, endIndex = 7\<rparr>,
      \<lparr>ttype = Close, tag = Some (js ''title''), attributes = None, content = None,
        startIndex = 7, endIndex = 15\<rparr>]" "Some (js ''sect1'')" 0
     "ParsedNode (js ''0'') (Elem (js ''h2''))
      [(js ''className'', js ''text-2xl font-bold mb-3 mt-6 text-gray-900''), (js ''data-id'', js ''0'')]
      [] 0 15 7 7" 2 1 "\<lambda>s. True" "\<lparr>callStack = 3, regexFits = (\<lambda>s. True)\<rparr>"]
  by (simp add: parse_title_tokens)

section \<open>Editing a text run\<close>

lemma escape_chars:
  "replaceAll (ch CHR ''>'') (js ''&gt;'')
     (replaceAll (ch CHR ''<'') (js ''&lt;'') (replaceAll (ch CHR ''&'') (js ''&amp;'') s)) =
   concat (map (\<lambda>x. if x = ch CHR ''&'' then js ''&amp;''
                       else if x = ch CHR ''<'' then js ''&lt;''
                       else if x = ch CHR ''>'' then js ''&gt;'' else [x]) s)"
  by (induction s) (auto simp: js_def ch_def)

text \<open>
  C7. \<open>handleTextChange\<close> hands on the text \<open>code[0..start) @ escape(c) @ code[end..]\<close>, where
  \<open>escape\<close> replaces every \<open>&\<close> by \<open>&amp;\<close>, every \<open><\<close> by \<open>&lt;\<close> and every \<open>>\<close> by \<open>&gt;\<close> and
  keeps every other code unit, and it records the intent \<open>(node.id, cursorPosition)\<close>. When
  the span of the run lies inside the text, every code unit before \<open>start\<close> is unchanged,
  every code unit from \<open>end\<close> on is unchanged and moved by the difference of the lengths, and
  the length changes by the length of the escaped content minus the length of the span.
\<close>

theorem text_patch:
  "handleTextChange code node newContent cursorPosition =
     (take (start_index node) code @
      concat (map (\<lambda>x. if x = ch CHR ''&'' then js ''&amp;''
                          else if x = ch CHR ''<'' then js ''&lt;''
                          else if x = ch CHR ''>'' then js ''&gt;'' else [x]) newContent) @
      drop (end_index node) code,
      Some \<lparr>nodeId = node_id node, cursor = cursorPosition\<rparr>) \<and>
   (start_index node \<le> end_index node \<and> end_index node \<le> length code \<longrightarrow>
      (let newCode = fst (handleTextChange code node newContent cursorPosition);
           escaped = concat (map (\<lambda>x. if x = ch CHR ''&'' then js ''&amp;''
                          else if x = ch CHR ''<'' then js ''&lt;''
                          else if x = ch CHR ''>'' then js ''&gt;'' else [x]) newContent)
       in (\<forall>i < start_index node. newCode ! i = code ! i) \<and>
          (\<forall>j. end_index node \<le> j \<and> j < length code \<longrightarrow>
             newCode ! (start_index node + length escaped + (j - end_index node)) = code ! j) \<and>
          length newCode + (end_index node - start_index node) = length code + length escaped))"
proof -
  have eq: "handleTextChange code node newContent cursorPosition =
     (take (start_index node) code @
      concat (map (\<lambda>x. if x = ch CHR ''&'' then js ''&amp;''
                          else if x = ch CHR ''<'' then js ''&lt;''
                          else if x = ch CHR ''>'' then js ''&gt;'' else [x]) newContent) @
      drop (end_index node) code,
      Some \<lparr>nodeId = node_id node, cursor = cursorPosition\<rparr>)"
    by (simp add: handleTextChange_def Let_def escape_chars substring_def substring_from_def)
  show ?thesis
    unfolding eq
    by (auto simp: Let_def nth_append min_def)
qed

theorem text_patch_witness:
  "fst (handleTextChange (js ''<para>Hi <b>a&b</b></para>'') (ParsedTextNode (js ''text-0'') (js ''Hi'') 6 9)
     (js ''1 < 2 '') 6) = js ''<para>1 &lt; 2 <b>a&b</b></para>''"
  using text_patch[of "js ''<para>Hi <b>a&b</b></para>''" "ParsedTextNode (js ''text-0'') (js ''Hi'') 6 9"
      "js ''1 < 2 ''" 6]
  by (simp add: js_def ch_def)

section \<open>Word snapping\<close>

lemma boundary_test_char_at:
  "boundary_test (char_at s i) \<longleftrightarrow> i < length s \<and> is_boundary (s ! i)"
  by (simp add: boundary_test_def char_at_def is_boundary_def is_space_def js_def ch_def)

lemma wordStartLoop_props:
  "wordStartLoop s w \<le> w \<and>
   (wordStartLoop s w = 0 \<or>
      (wordStartLoop s w - 1 < length s \<and> is_boundary (s ! (wordStartLoop s w - 1)))) \<and>
   (\<forall>i. wordStartLoop s w \<le> i \<and> i < w \<and> i < length s \<longrightarrow> \<not> is_boundary (s ! i))"
proof (induction s w rule: wordStartLoop.induct)
  case (1 str wordStart)
  show ?case
  proof (cases "wordStart > 0 \<and> \<not> boundary_test (char_at str (wordStart - 1))")
    case True
    then have eq: "wordStartLoop str wordStart = wordStartLoop str (wordStart - 1)"
      by (subst wordStartLoop.simps) simp
    from 1[OF True] True show ?thesis
      unfolding eq
      apply (auto simp: boundary_test_char_at)
      subgoal for i by (cases "i = wordStart - 1") auto
      subgoal for i by (cases "i = wordStart - 1") auto
      done
  next
    case False
    then have eq: "wordStartLoop str wordStart = wordStart"
      by (subst wordStartLoop.simps) auto
    from False show ?thesis
      unfolding eq by (auto simp: boundary_test_char_at)
  qed
qed

lemma wordEndLoop_props:
  "w \<le> wordEndLoop s w \<and>
   wordEndLoop s w + 1 \<le> max (w + 1) (length s) \<and>
   (length s \<le> wordEndLoop s w + 1 \<or> is_boundary (s ! (wordEndLoop s w + 1))) \<and>
   (\<forall>i. w < i \<and> i \<le> wordEndLoop s w \<longrightarrow> i < length s \<and> \<not> is_boundary (s ! i))"
proof (induction s w rule: wordEndLoop.induct)
  case (1 str wordEnd)
  show ?case
  proof (cases "int wordEnd < int (length str) - 1 \<and> \<not> boundary_test (char_at str (wordEnd + 1))")
    case True
    then have eq: "wordEndLoop str wordEnd = wordEndLoop str (wordEnd + 1)"
      by (subst wordEndLoop.simps) simp
    from 1[OF True] True show ?thesis
      unfolding eq
      apply (auto simp: boundary_test_char_at)
      subgoal for i by (cases "i = wordEnd + 1") auto
      subgoal for i by (cases "i = wordEnd + 1") auto
      done
  next
    case False
    then have eq: "wordEndLoop str wordEnd = wordEnd"
      by (subst wordEndLoop.simps) auto
    from False show ?thesis
      unfolding eq by (auto simp: boundary_test_char_at)
  qed
qed
lemma wordEndLoop_inside:
  "w < length s \<Longrightarrow> wordEndLoop s w < length s"
proof (induction s w rule: wordEndLoop.induct)
  case (1 str wordEnd)
  show ?case
  proof (cases "int wordEnd < int (length str) - 1 \<and> \<not> boundary_test (char_at str (wordEnd + 1))")
    case True
    then have eq: "wordEndLoop str wordEnd = wordEndLoop str (wordEnd + 1)"
      by (subst wordEndLoop.simps) simp
    from True have "wordEnd + 1 < length str" by simp
    from 1(1)[OF True this] show ?thesis unfolding eq .
  next
    case False
    then have "wordEndLoop str wordEnd = wordEnd"
      by (subst wordEndLoop.simps) auto
    with 1(2) show ?thesis by simp
  qed
qed

lemma wordEndLoop_past:
  "length s \<le> w \<Longrightarrow> wordEndLoop s w = w"
  by (subst wordEndLoop.simps) simp

text \<open>
  C8, as the code has it. Take a text run and an offset \<open>pos\<close> inside its span that falls on
  a code unit of its content, that is, \<open>rel = pos - start\<close> is less than the length of the
  content, and let the editor be the source. The run is rendered as \<open>before\<close>, \<open>word\<close>,
  \<open>after\<close>, which together are the content of that run, and the word is the part \<open>[s, e)\<close> of
  the content: \<open>s \<le> rel < e \<le> length\<close>, so the word holds the code unit at the offset and
  lies within the content, and within the span of the run when the content is no longer
  than the span. Left of \<open>s\<close> is the edge of the run or a boundary character, and so is right
  of \<open>e\<close>; no code unit of the word other than the one at \<open>rel\<close> is a boundary character (the
  one at \<open>rel\<close> itself is not looked at). The boundary characters are the white space of
  \<open>\s\<close> (space, tab, line feed, and also carriage return, form feed, vertical tab, no-break
  space and the other Unicode spaces and line terminators) and the five marks
  \<open>. , ; ? !\<close>.
\<close>

theorem word_snap:
  "syncPos = Some pos \<and> start_index node \<le> pos \<and> pos < end_index node \<and>
   pos - start_index node < length (text_content node) \<longrightarrow>
     (let str = text_content node;
          rel = pos - start_index node;
          s = wordStartLoop str rel;
          e = wordEndLoop str rel + 1
      in RenderedTextNode node syncPos (Some Editor) =
           Highlighted (take s str) (take (e - s) (drop s str)) (drop e str) \<and>
         take s str @ take (e - s) (drop s str) @ drop e str = str \<and>
         s \<le> rel \<and> rel < e \<and> e \<le> length str \<and>
         length (take (e - s) (drop s str)) = e - s \<and>
         take (e - s) (drop s str) ! (rel - s) = str ! rel \<and>
         (length str \<le> end_index node - start_index node \<longrightarrow>
            start_index node + e \<le> end_index node) \<and>
         (s = 0 \<or> is_boundary (str ! (s - 1))) \<and>
         (e = length str \<or> is_boundary (str ! e)) \<and>
         (\<forall>i. s \<le> i \<and> i < e \<and> i \<noteq> rel \<longrightarrow> \<not> is_boundary (str ! i)) \<and>
         (\<forall>c. is_boundary c \<longleftrightarrow> is_space c \<or> c \<in> set (js ''.,;?!'')))"
proof (intro impI)
  assume a: "syncPos = Some pos \<and> start_index node \<le> pos \<and> pos < end_index node \<and>
   pos - start_index node < length (text_content node)"
  define str where "str = text_content node"
  define rel where "rel = pos - start_index node"
  define s where "s = wordStartLoop str rel"
  define e where "e = wordEndLoop str rel + 1"
  note S = wordStartLoop_props[where s = str and w = rel, folded s_def]
  note E = wordEndLoop_props[where s = str and w = rel]
  have rl: "rel < length str" using a by (simp add: rel_def str_def)
  have el: "e \<le> length str" using wordEndLoop_inside[OF rl] by (simp add: e_def)
  have se: "s \<le> rel" "rel < e" "s \<le> e"
    using S E by (auto simp: e_def)
  have r: "RenderedTextNode node syncPos (Some Editor) =
           Highlighted (take s str) (take (e - s) (drop s str)) (drop e str)"
    using a se
    by (simp add: RenderedTextNode_def Let_def substring_def substring_from_def str_def rel_def
          s_def e_def min_def max_def)
  have part: "take s str @ take (e - s) (drop s str) @ drop e str = str"
  proof -
    have "take (e - s) (drop s str) @ drop e str = drop s str"
      using se(3) by (metis append_take_drop_id drop_drop le_add_diff_inverse2 add.commute)
    then show ?thesis by simp
  qed
  have wl: "length (take (e - s) (drop s str)) = e - s" using el se by simp
  have wr: "take (e - s) (drop s str) ! (rel - s) = str ! rel" using el se rl by simp
  have b2: "length str \<le> end_index node - start_index node \<longrightarrow> start_index node + e \<le> end_index node"
    using el a by auto
  have l: "s = 0 \<or> is_boundary (str ! (s - 1))"
    using S by blast
  have rr: "e = length str \<or> is_boundary (str ! e)"
    using E el by (auto simp: e_def)
  have m: "\<forall>i. s \<le> i \<and> i < e \<and> i \<noteq> rel \<longrightarrow> \<not> is_boundary (str ! i)"
  proof (intro allI impI)
    fix i assume i: "s \<le> i \<and> i < e \<and> i \<noteq> rel"
    show "\<not> is_boundary (str ! i)"
    proof (cases "i < rel")
      case True
      with i rl S show ?thesis by auto
    next
      case False
      with i have "rel < i \<and> i \<le> wordEndLoop str rel" by (simp add: e_def)
      with E show ?thesis by blast
    qed
  qed
  have bs: "\<forall>c. is_boundary c \<longleftrightarrow> is_space c \<or> c \<in> set (js ''.,;?!'')"
    by (auto simp: is_boundary_def js_def)
  show "let str = text_content node;
          rel = pos - start_index node;
          s = wordStartLoop str rel;
          e = wordEndLoop str rel + 1
      in RenderedTextNode node syncPos (Some Editor) =
           Highlighted (take s str) (take (e - s) (drop s str)) (drop e str) \<and>
         take s str @ take (e - s) (drop s str) @ drop e str = str \<and>
         s \<le> rel \<and> rel < e \<and> e \<le> length str \<and>
         length (take (e - s) (drop s str)) = e - s \<and>
         take (e - s) (drop s str) ! (rel - s) = str ! rel \<and>
         (length str \<le> end_index node - start_index node \<longrightarrow>
            start_index node + e \<le> end_index node) \<and>
         (s = 0 \<or> is_boundary (str ! (s - 1))) \<and>
         (e = length str \<or> is_boundary (str ! e)) \<and>
         (\<forall>i. s \<le> i \<and> i < e \<and> i \<noteq> rel \<longrightarrow> \<not> is_boundary (str ! i)) \<and>
         (\<forall>c. is_boundary c \<longleftrightarrow> is_space c \<or> c \<in> set (js ''.,;?!''))"
    unfolding Let_def str_def[symmetric] rel_def[symmetric] s_def[symmetric] e_def[symmetric]
    using r part se(1,2) el wl wr b2 l rr m bs by blast
qed

lemmas word_eval = RenderedTextNode_def wordStartLoop.simps wordEndLoop.simps boundary_test_def
  char_at_def is_boundary_def is_space_def substring_def substring_from_def js_def ch_def Let_def

theorem word_snap_witness:
  "RenderedTextNode (ParsedTextNode (js ''text-0'') (js ''Hi there. Bob'') 10 23) (Some 14) (Some Editor) =
     Highlighted (js ''Hi '') (js ''there'') (js ''. Bob'')"
  using word_snap[of "Some 14" 14 "ParsedTextNode (js ''text-0'') (js ''Hi there. Bob'') 10 23"]
  by (simp add: word_eval cong: let_weak_cong)

text \<open>
  An offset inside the span that lies behind the content (the span is longer than the
  content by the white space trimmed at its end): the right loop does not run, and the word
  is what is left of the content from \<open>s\<close> on.
\<close>

lemma word_snap_past_content:
  assumes "syncPos = Some pos" "start_index node \<le> pos" "pos < end_index node"
    and "length (text_content node) \<le> pos - start_index node"
  shows "RenderedTextNode node syncPos (Some Editor) =
           Highlighted (take (wordStartLoop (text_content node) (pos - start_index node)) (text_content node))
             (drop (wordStartLoop (text_content node) (pos - start_index node)) (text_content node)) []"
proof -
  define str where "str = text_content node"
  define rel where "rel = pos - start_index node"
  have e: "wordEndLoop str rel = rel" using assms(4) wordEndLoop_past by (simp add: str_def rel_def)
  have s: "wordStartLoop str rel \<le> rel" using wordStartLoop_props[where s = str and w = rel] by simp
  show ?thesis
    using assms s e
    by (simp add: RenderedTextNode_def Let_def substring_def substring_from_def str_def[symmetric]
          rel_def[symmetric] min_def max_def)
qed

lemma tokenize_trailing:
  "tokenize (js ''<p>Hi.       </p>'') =
   [\<lparr>ttype = Open, tag = Some (js ''p''), attributes = Some [], content = None, startIndex = 0, endIndex = 3\<rparr>,
    \<lparr>ttype = Text, tag = None, attributes = None, content = Some (js ''Hi.''), startIndex = 3, endIndex = 13\<rparr>,
    \<lparr>ttype = Close, tag = Some (js ''p''), attributes = None, content = None, startIndex = 13, endIndex = 17\<rparr>]"
  by (simp add: tok_eval cong: let_weak_cong)

text \<open>
  C8 as stated fails, twice. The run \<open>a\<close>, carriage return, \<open>b\<close> with the offset on \<open>a\<close>
  snaps to \<open>a\<close> alone: the expansion to the right stops at the carriage return, which is
  none of space, tab, newline, period, comma, semicolon, question mark and exclamation mark.
  And in \<open><p>Hi.       </p>\<close> the text run has the content \<open>Hi.\<close> and the span 3 to 13; at
  the offset 11, inside the span and behind the content, the word is empty and does not
  hold the offset.
\<close>

theorem word_snap_counterexample:
  "RenderedTextNode (ParsedTextNode (js ''text-0'') [ch CHR ''a'', 13, ch CHR ''b''] 0 3) (Some 0) (Some Editor) =
     Highlighted [] [ch CHR ''a''] [13, ch CHR ''b''] \<and>
   13 \<notin> set (js '' .,;?!'') \<union> {9, 10} \<and>
   tokenize (js ''<p>Hi.       </p>'') ! 1 =
     \<lparr>ttype = Text, tag = None, attributes = None, content = Some (js ''Hi.''), startIndex = 3, endIndex = 13\<rparr> \<and>
   RenderedTextNode (ParsedTextNode (js ''text-0'') (js ''Hi.'') 3 13) (Some 11) (Some Editor) =
     Highlighted (js ''Hi.'') [] []"
  by (simp add: tokenize_trailing) (simp add: word_eval cong: let_weak_cong)

section \<open>Text runs in the tokenizer\<close>

lemma push_match_append:
  "push_match kind m p (acc @ tokens) = acc @ push_match kind m p tokens"
  by (simp add: push_match_def Let_def split: match_kind.splits option.splits)



lemma trim_empty: "trim run = [] \<longleftrightarrow> (\<forall>c\<in>set run. is_space c)"
proof -
  have "trim run = [] \<longleftrightarrow> (\<forall>c\<in>set (dropWhile is_space run). is_space c)"
    by (simp add: trim_def dropWhile_eq_Nil_conv)
  also have "\<dots> \<longleftrightarrow> dropWhile is_space run = []"
  proof
    assume a: "\<forall>c\<in>set (dropWhile is_space run). is_space c"
    show "dropWhile is_space run = []"
    proof (rule ccontr)
      assume ne: "dropWhile is_space run \<noteq> []"
      then have "\<not> is_space (hd (dropWhile is_space run))" by (rule hd_dropWhile)
      moreover have "hd (dropWhile is_space run) \<in> set (dropWhile is_space run)"
        using ne by simp
      ultimately show False using a by blast
    qed
  next
    assume "dropWhile is_space run = []"
    then show "\<forall>c\<in>set (dropWhile is_space run). is_space c"
      by (metis empty_iff empty_set)
  qed
  also have "\<dots> \<longleftrightarrow> (\<forall>c\<in>set run. is_space c)"
    by (simp add: dropWhile_eq_Nil_conv)
  finally show ?thesis .
qed





section \<open>A call stack exhausted\<close>











section \<open>Ids\<close>

lemma numbered_from_Nil: "numbered_from c []"
  by (simp add: numbered_from_def)

lemma numbered_from_append:
  "numbered_from c (xs @ ys) \<longleftrightarrow> numbered_from c xs \<and> numbered_from (c + length xs) ys"
proof
  assume a: "numbered_from c (xs @ ys)"
  have "numbered_from c xs"
    unfolding numbered_from_def
  proof (intro allI impI)
    fix n assume "n < length xs"
    with a[unfolded numbered_from_def, rule_format, of n] show "node_id (xs ! n) = id_of_counter (xs ! n) (c + n)"
      by (simp add: nth_append)
  qed
  moreover have "numbered_from (c + length xs) ys"
    unfolding numbered_from_def
  proof (intro allI impI)
    fix n assume "n < length ys"
    with a[unfolded numbered_from_def, rule_format, of "length xs + n"]
    show "node_id (ys ! n) = id_of_counter (ys ! n) (c + length xs + n)"
      by (simp add: nth_append add.assoc)
  qed
  ultimately show "numbered_from c xs \<and> numbered_from (c + length xs) ys" by simp
next
  assume a: "numbered_from c xs \<and> numbered_from (c + length xs) ys"
  show "numbered_from c (xs @ ys)"
    unfolding numbered_from_def
  proof (intro allI impI)
    fix n assume n: "n < length (xs @ ys)"
    show "node_id ((xs @ ys) ! n) = id_of_counter ((xs @ ys) ! n) (c + n)"
    proof (cases "n < length xs")
      case True
      with a show ?thesis by (simp add: numbered_from_def nth_append)
    next
      case False
      with n have "n - length xs < length ys" by simp
      with a have "node_id (ys ! (n - length xs)) = id_of_counter (ys ! (n - length xs)) (c + length xs + (n - length xs))"
        by (simp add: numbered_from_def)
      with False show ?thesis by (simp add: nth_append)
    qed
  qed
qed

lemma numbered_from_single:
  "numbered_from c [x] \<longleftrightarrow> node_id x = id_of_counter x c"
  by (simp add: numbered_from_def)

lemma numbered_from_Cons:
  "numbered_from c (x # xs) \<longleftrightarrow> node_id x = id_of_counter x c \<and> numbered_from (Suc c) xs"
  using numbered_from_append[of c "[x]" xs] by (simp add: numbered_from_single)

lemma parse_ids:
  "parse tokens index p c = (r, c') \<Longrightarrow>
     (case r of
        None \<Rightarrow> c' = c
      | Some (node, k) \<Rightarrow> c' = c + length (post_order node) \<and> numbered_from c (post_order node))"
  "\<exists>new. children (consume tokens T st) = children st @ new \<and>
      nodeIdCounter (consume tokens T st) =
        nodeIdCounter st + length (concat (map post_order new)) \<and>
      numbered_from (nodeIdCounter st) (concat (map post_order new))"
proof (induct tokens index p c and tokens T st arbitrary: r c' rule: parse_consume.induct)
  case (1 tokens index parentTagName c)
  note IH = 1(1)[OF _ refl _ refl refl] and r = 1(2)
  show ?case
  proof (cases "index < length tokens \<and> (ttype (tokens ! index) = Open \<or> ttype (tokens ! index) = SelfClosing)")
    case False
    then show ?thesis using r by (auto simp: parse.simps[of tokens index] Let_def split: if_splits)
  next
    case True
    define token where "token = tokens ! index"
    define st0 where "st0 = \<lparr>children = [], contentEndIndex = endIndex token, nextIndex = index + 1,
                      finalEndIndex = endIndex token, nodeIdCounter = c\<rparr>"
    show ?thesis
    proof (cases "ttype token = Open")
      case op: True
      from IH[folded token_def, folded st0_def] True op
      obtain new where new: "children (consume tokens (tag token) st0) = children st0 @ new"
        "nodeIdCounter (consume tokens (tag token) st0) =
           nodeIdCounter st0 + length (concat (map post_order new))"
        "numbered_from (nodeIdCounter st0) (concat (map post_order new))"
        by (auto simp: token_def)
      show ?thesis
        using r True op new
        by (auto simp: parse.simps[of tokens index] Let_def token_def[symmetric] st0_def[symmetric]
              numbered_from_append numbered_from_single id_of_counter_def st0_def)
    next
      case False
      then show ?thesis
        using r True
        by (auto simp: parse.simps[of tokens index] Let_def token_def[symmetric]
              numbered_from_single id_of_counter_def numbered_from_Nil)
    qed
  qed
next
  case (2 tokens tagName st)
  note IH_text = 2(1)[OF _ refl] and IH_skip_text = 2(2)[OF _ refl] and IH_parse = 2(3)[OF _ refl]
    and IH_none = 2(4)[OF _ refl] and IH_some = 2(5)[OF _ refl] and IH_other = 2(6)[OF _ refl]
  define t where "t = tokens ! nextIndex st"
  show ?case
  proof (cases "nextIndex st < length tokens")
    case False
    then have "consume tokens tagName st = st" by (subst consume.simps) simp
    then show ?thesis by (simp add: numbered_from_Nil)
  next
    case lt: True
    show ?thesis
    proof (cases "ttype t = Close \<and> tag t = tagName")
      case True
      then have "consume tokens tagName st =
          st\<lparr>contentEndIndex := startIndex t, finalEndIndex := endIndex t, nextIndex := nextIndex st + 1\<rparr>"
        using lt by (subst consume.simps) (auto simp: t_def Let_def)
      then show ?thesis by (simp add: numbered_from_Nil)
    next
      case nc: False
      show ?thesis
      proof (cases "ttype t = Text")
        case tx: True
        show ?thesis
        proof (cases "truthy (content t)")
          case True
          define tn where "tn = ParsedTextNode (js ''text-'' @ toString (nodeIdCounter st))
                         (the (content t)) (startIndex t) (endIndex t)"
          define st1 where "st1 = st\<lparr>children := children st @ [tn],
                   nodeIdCounter := nodeIdCounter st + 1, nextIndex := nextIndex st + 1\<rparr>"
          have eq: "consume tokens tagName st = consume tokens tagName st1"
            using lt nc tx True by (subst consume.simps) (auto simp: t_def Let_def st1_def tn_def)
          from IH_text[folded t_def, OF lt nc tx True, folded tn_def, folded st1_def]
          obtain new where new: "children (consume tokens tagName st1) = children st1 @ new"
            "nodeIdCounter (consume tokens tagName st1) =
               nodeIdCounter st1 + length (concat (map post_order new))"
            "numbered_from (nodeIdCounter st1) (concat (map post_order new))"
            by blast
          have "numbered_from (nodeIdCounter st) (concat (map post_order (tn # new)))"
            using new(3)
            by (simp add: numbered_from_Cons st1_def tn_def id_of_counter_def)
          moreover have "children (consume tokens tagName st) = children st @ (tn # new)"
            using new(1) by (simp add: eq st1_def)
          moreover have "nodeIdCounter (consume tokens tagName st) =
               nodeIdCounter st + length (concat (map post_order (tn # new)))"
            using new(2) by (simp add: eq st1_def tn_def)
          ultimately show ?thesis by blast
        next
          case False
          have eq: "consume tokens tagName st = consume tokens tagName (st\<lparr>nextIndex := nextIndex st + 1\<rparr>)"
            using lt nc tx False by (subst consume.simps) (auto simp: t_def Let_def)
          from IH_skip_text[folded t_def, OF lt nc tx False] show ?thesis
            by (simp add: eq)
        qed
      next
        case nt: False
        show ?thesis
        proof (cases "ttype t = Open \<or> ttype t = SelfClosing")
          case False
          have eq: "consume tokens tagName st = consume tokens tagName (st\<lparr>nextIndex := nextIndex st + 1\<rparr>)"
            using lt nc nt False by (subst consume.simps) (auto simp: t_def Let_def)
          from IH_other[folded t_def, OF lt nc nt False] show ?thesis
            by (simp add: eq)
        next
          case os: True
          obtain r c1 where p: "parse tokens (nextIndex st) tagName (nodeIdCounter st) = (r, c1)"
            by (cases "parse tokens (nextIndex st) tagName (nodeIdCounter st)") auto
          note P = IH_parse[folded t_def, OF lt nc nt os p]
          show ?thesis
          proof (cases r)
            case None
            define st1 where "st1 = st\<lparr>nextIndex := nextIndex st + 1, nodeIdCounter := c1\<rparr>"
            have eq: "consume tokens tagName st = consume tokens tagName st1"
              using lt nc nt os p None
              by (subst consume.simps) (auto simp: t_def Let_def st1_def)
            from P None have c1: "c1 = nodeIdCounter st" by simp
            from IH_none[folded t_def, OF lt nc nt os p[symmetric] None, folded st1_def]
            show ?thesis
              by (simp add: eq st1_def c1)
          next
            case (Some nk)
            obtain node ni where nk: "nk = (node, ni)" by (cases nk) auto
            define st1 where "st1 = st\<lparr>children := children st @ [node], nextIndex := ni,
                                        nodeIdCounter := c1\<rparr>"
            have eq: "consume tokens tagName st = consume tokens tagName st1"
              using lt nc nt os p Some nk
              by (subst consume.simps) (auto simp: t_def Let_def st1_def)
            from P Some nk have c1: "c1 = nodeIdCounter st + length (post_order node)"
              and nf: "numbered_from (nodeIdCounter st) (post_order node)" by simp_all
            from IH_some[folded t_def, OF lt nc nt os p[symmetric] Some nk[symmetric], folded st1_def]
            obtain new where new: "children (consume tokens tagName st1) = children st1 @ new"
              "nodeIdCounter (consume tokens tagName st1) =
                 nodeIdCounter st1 + length (concat (map post_order new))"
              "numbered_from (nodeIdCounter st1) (concat (map post_order new))"
              by blast
            have "numbered_from (nodeIdCounter st) (concat (map post_order (node # new)))"
              using new(3) nf by (simp add: numbered_from_append st1_def c1)
            moreover have "children (consume tokens tagName st) = children st @ (node # new)"
              using new(1) by (simp add: eq st1_def)
            moreover have "nodeIdCounter (consume tokens tagName st) =
                 nodeIdCounter st + length (concat (map post_order (node # new)))"
              using new(2) by (simp add: eq st1_def c1)
            ultimately show ?thesis by blast
          qed
        qed
      qed
    qed
  qed
qed

lemma toString_digits: "toString n \<noteq> [] \<and> (\<forall>d\<in>set (toString n). 48 \<le> d \<and> d \<le> 57)"
proof (induction n rule: toString.induct)
  case (1 n)
  show ?case
  proof (cases "n < 10")
    case True
    then show ?thesis by (subst (1 2) toString.simps) simp
  next
    case False
    have "n mod 10 < 10" by simp
    then have "48 + n mod 10 \<le> 57" by linarith
    with 1[OF False] False show ?thesis
      by (subst (1 2) toString.simps) auto
  qed
qed

lemma toString_inj: "toString n = toString m \<Longrightarrow> n = m"
proof (induction n arbitrary: m rule: toString.induct)
  case (1 n)
  show ?case
  proof (cases "n < 10")
    case True
    then have n: "toString n = [48 + n]" by (subst toString.simps) simp
    show ?thesis
    proof (cases "m < 10")
      case True
      then have "toString m = [48 + m]" by (subst toString.simps) simp
      with n 1(2) show ?thesis by simp
    next
      case False
      then have "toString m = toString (m div 10) @ [48 + m mod 10]" by (subst toString.simps) simp
      with n 1(2) toString_digits[of "m div 10"] show ?thesis by (simp add: Cons_eq_append_conv)
    qed
  next
    case False
    then have n: "toString n = toString (n div 10) @ [48 + n mod 10]" by (subst toString.simps) simp
    show ?thesis
    proof (cases "m < 10")
      case True
      then have "toString m = [48 + m]" by (subst toString.simps) simp
      with n 1(2) toString_digits[of "n div 10"] show ?thesis by (simp add: append_eq_Cons_conv)
    next
      case m: False
      then have "toString m = toString (m div 10) @ [48 + m mod 10]" by (subst toString.simps) simp
      with n 1(2) have "toString (n div 10) = toString (m div 10)" "n mod 10 = m mod 10" by simp_all
      with 1(1)[OF False] have "n div 10 = m div 10" "n mod 10 = m mod 10" by simp_all
      then show ?thesis by (metis div_mult_mod_eq)
    qed
  qed
qed

lemma id_of_counter_inj:
  assumes "id_of_counter x n = id_of_counter y m"
  shows "n = m"
proof -
  have no: "js ''text-'' @ toString a \<noteq> toString b" for a b
  proof
    assume e: "js ''text-'' @ toString a = toString b"
    have "116 \<in> set (js ''text-'' @ toString a)" by (simp add: js_def ch_def)
    with e toString_digits[of b] show False by auto
  qed
  show ?thesis
    using assms no[of n m] no[of m n]
    by (auto simp: id_of_counter_def dest: toString_inj split: if_splits)
qed

lemma numbered_from_distinct:
  assumes "numbered_from c xs"
  shows "distinct (map node_id xs)"
  unfolding distinct_conv_nth
proof (intro allI impI)
  fix i j assume i: "i < length (map node_id xs)" and j: "j < length (map node_id xs)" and ne: "i \<noteq> j"
  show "map node_id xs ! i \<noteq> map node_id xs ! j"
  proof
    assume "map node_id xs ! i = map node_id xs ! j"
    with i j assms have "id_of_counter (xs ! i) (c + i) = id_of_counter (xs ! j) (c + j)"
      by (simp add: numbered_from_def)
    from id_of_counter_inj[OF this] ne show False by simp
  qed
qed

lemma post_order_last: "post_order t \<noteq> [] \<and> (is_ParsedNode t \<longrightarrow> last (post_order t) = t)"
  by (cases t) auto

text \<open>
  C9, as the code has it. One counter gives every node and every text run of a parse its
  id, and it is 0 when \<open>parseDocBook\<close> calls \<open>parse\<close>. A text run takes the next value when
  the loop reaches its token, and a node takes the next value after its loop has ended, so
  after everything below it: in the order \<open>post_order\<close> the \<open>n\<close>-th item has the id \<open>n\<close> (a
  node) or \<open>text-n\<close> (a text run), the root has the largest value, and all ids of a tree
  are distinct.
\<close>

theorem ids_post_order:
  "(parse tokens index parentTagName c = (Some (node, k), c') \<longrightarrow>
      c' = c + length (post_order node) \<and>
      (\<forall>n < length (post_order node).
         node_id (post_order node ! n) =
           (if is_ParsedNode (post_order node ! n) then toString (c + n)
            else js ''text-'' @ toString (c + n))) \<and>
      distinct (map node_id (post_order node))) \<and>
   (parseDocBook wellFormed eng xmlString = Some tree \<longrightarrow>
      (\<forall>n < length (post_order tree).
         node_id (post_order tree ! n) =
           (if is_ParsedNode (post_order tree ! n) then toString n else js ''text-'' @ toString n)) \<and>
      distinct (map node_id (post_order tree)) \<and>
      node_id tree = toString (length (post_order tree) - 1))"
proof (intro conjI impI)
  assume r: "parse tokens index parentTagName c = (Some (node, k), c')"
  from parse_ids(1)[OF r]
  have a: "c' = c + length (post_order node)" and b: "numbered_from c (post_order node)" by simp_all
  show "c' = c + length (post_order node)" by (rule a)
  show "\<forall>n < length (post_order node).
         node_id (post_order node ! n) =
           (if is_ParsedNode (post_order node ! n) then toString (c + n)
            else js ''text-'' @ toString (c + n))"
    using b by (simp add: numbered_from_def id_of_counter_def)
  show "distinct (map node_id (post_order node))"
    using b by (rule numbered_from_distinct)
next
  assume t: "parseDocBook wellFormed eng xmlString = Some tree"
  then obtain i k c' where r: "parse (tokenize xmlString) i None 0 = (Some (tree, k), c')"
    using parseDocBook_Some by blast
  from parse_ids(1)[OF r] have b: "numbered_from 0 (post_order tree)" by simp
  show n: "\<forall>n < length (post_order tree).
         node_id (post_order tree ! n) =
           (if is_ParsedNode (post_order tree ! n) then toString n else js ''text-'' @ toString n)"
    using b by (simp add: numbered_from_def id_of_counter_def)
  show "distinct (map node_id (post_order tree))"
    using b by (rule numbered_from_distinct)
  have isn: "is_ParsedNode tree"
    using r by (auto simp: parse.simps[of "tokenize xmlString" i] Let_def split: if_splits)
  with post_order_last[of tree] have l: "post_order tree ! (length (post_order tree) - 1) = tree"
    by (metis last_conv_nth)
  from n[rule_format, of "length (post_order tree) - 1"] post_order_last[of tree] l isn
  show "node_id tree = toString (length (post_order tree) - 1)" by simp
qed

theorem ids_post_order_witness:
  "map node_id (post_order (ParsedNode (js ''1'') (Elem (js ''div'')) [(js ''data-id'', js ''1'')]
            [ParsedTextNode (js ''text-0'') (js ''x'') 3 4] 0 8 3 4)) = [js ''text-0'', js ''1''] \<and>
   parseDocBook (\<lambda>s. True) \<lparr>callStack = 1, regexFits = (\<lambda>s. True)\<rparr> (js ''<b>x</b>'') =
     Some (ParsedNode (js ''1'') (Elem (js ''div'')) [(js ''data-id'', js ''1'')]
            [ParsedTextNode (js ''text-0'') (js ''x'') 3 4] 0 8 3 4)"
  using ids_post_order[of
      "[\<lparr>ttype = Open, tag = Some (js ''b''), attributes = Some [], content = None, startIndex = 0, endIndex = 3\<rparr>,
      \<lparr>ttype = Text, tag = None, attributes = None, content = Some (js ''x''), startIndex = 3, endIndex = 4\<rparr>,
      \<lparr>ttype = Close, tag = Some (js ''b''), attributes = None, content = None, startIndex = 4, endIndex = 8\<rparr>]"
      0 None 0
      "ParsedNode (js ''1'') (Elem (js ''div'')) [(js ''data-id'', js ''1'')]
            [ParsedTextNode (js ''text-0'') (js ''x'') 3 4] 0 8 3 4" 3 2
      "\<lambda>s. True" "\<lparr>callStack = 1, regexFits = (\<lambda>s. True)\<rparr>" "js ''<b>x</b>''"
      "ParsedNode (js ''1'') (Elem (js ''div'')) [(js ''data-id'', js ''1'')]
            [ParsedTextNode (js ''text-0'') (js ''x'') 3 4] 0 8 3 4"]
  by (simp add: parse_b_tokens parseDocBook_b)

text \<open>
  C9 as stated fails on the order: in \<open><b>x</b>\<close> the element begins at offset 0, before
  its text at offset 3, yet the text run has the counter value 0 (\<open>text-0\<close>) and the
  element the later value 1.
\<close>

theorem ids_document_order_counterexample:
  "parse (tokenize (js ''<b>x</b>'')) 0 None 0 =
   (Some (ParsedNode (js ''1'') (Elem (js ''div'')) [(js ''data-id'', js ''1'')]
            [ParsedTextNode (js ''text-0'') (js ''x'') 3 4] 0 8 3 4, 3), 2)"
  by (simp add: tokenize_b parse_b_tokens)

section \<open>Closing an element\<close>

termination loop_heads
  by (relation "measure (\<lambda>(tokens, tagName, n, c). length tokens - n)")
     (auto dest: progress(1)[OF sym])

declare loop_heads.simps [simp del]

lemma parse_bound:
  "parse tokens index p c = (Some (node, k), c') \<Longrightarrow> k \<le> length tokens"
  "nextIndex st \<le> length tokens \<Longrightarrow> nextIndex (consume tokens tagName st) \<le> length tokens"
proof (induct tokens index p c and tokens tagName st arbitrary: node k c' rule: parse_consume.induct)
  case (1 tokens index parentTagName c)
  show ?case
    using 1(1)[OF _ refl _ refl refl] 1(2)
    by (auto simp: parse.simps[of tokens index] Let_def split: if_splits)
next
  case (2 tokens tagName st)
  show ?case
    apply (subst consume.simps)
    using 2
    apply (auto simp: Let_def split: prod.splits option.splits)
    done
qed

lemma consume_heads:
  "nextIndex st = n \<Longrightarrow> nodeIdCounter st = c \<Longrightarrow>
     (\<forall>j\<in>set (loop_heads tokens T n c). n \<le> j \<and> j < length tokens) \<and>
     sorted_wrt (<) (loop_heads tokens T n c) \<and>
     (find (closes tokens T) (loop_heads tokens T n c) = None \<longrightarrow>
        nextIndex (consume tokens T st) = max n (length tokens) \<and>
        contentEndIndex (consume tokens T st) = contentEndIndex st \<and>
        finalEndIndex (consume tokens T st) = finalEndIndex st) \<and>
     (\<forall>j. find (closes tokens T) (loop_heads tokens T n c) = Some j \<longrightarrow>
        j = last (loop_heads tokens T n c) \<and>
        nextIndex (consume tokens T st) = j + 1 \<and>
        contentEndIndex (consume tokens T st) = startIndex (tokens ! j) \<and>
        finalEndIndex (consume tokens T st) = endIndex (tokens ! j))"
proof (induction tokens T n c arbitrary: st rule: loop_heads.induct)
  case (1 tokens tagName n c)
  note IH_text = 1(1)[OF _ refl] and IH_skip = 1(2)[OF _ refl] and IH_none = 1(3)[OF _ refl]
    and IH_some = 1(4)[OF _ refl] and IH_other = 1(5)[OF _ refl]
  note n = 1(6) and c = 1(7)
  define t where "t = tokens ! n"
  show ?case
  proof (cases "n < length tokens")
    case False
    have "loop_heads tokens tagName n c = []"
      using False by (subst loop_heads.simps) simp
    moreover have "consume tokens tagName st = st"
      using False n by (subst consume.simps) simp
    ultimately show ?thesis using False n by simp
  next
    case lt: True
    show ?thesis
    proof (cases "closes tokens tagName n")
      case True
      then have h: "loop_heads tokens tagName n c = [n]"
        using lt by (subst loop_heads.simps) (simp add: closes_def Let_def)
      have "consume tokens tagName st =
          st\<lparr>contentEndIndex := startIndex t, finalEndIndex := endIndex t, nextIndex := nextIndex st + 1\<rparr>"
        using lt True n by (subst consume.simps) (simp add: t_def Let_def closes_def)
      then show ?thesis using h lt True n by (simp add: t_def)
    next
      case nc: False
      then have nc': "\<not> (ttype t = Close \<and> tag t = tagName)" by (simp add: closes_def t_def)
      have final: ?thesis
        if n1: "n < n1" "n1 \<le> length tokens"
          and st1: "contentEndIndex st1 = contentEndIndex st" "finalEndIndex st1 = finalEndIndex st"
          and hs: "loop_heads tokens tagName n c = n # loop_heads tokens tagName n1 c1"
          and cs: "consume tokens tagName st = consume tokens tagName st1"
          and ih: "(\<forall>j\<in>set (loop_heads tokens tagName n1 c1). n1 \<le> j \<and> j < length tokens) \<and>
            sorted_wrt (<) (loop_heads tokens tagName n1 c1) \<and>
            (find (closes tokens tagName) (loop_heads tokens tagName n1 c1) = None \<longrightarrow>
              nextIndex (consume tokens tagName st1) = max n1 (length tokens) \<and>
              contentEndIndex (consume tokens tagName st1) = contentEndIndex st1 \<and>
              finalEndIndex (consume tokens tagName st1) = finalEndIndex st1) \<and>
            (\<forall>j. find (closes tokens tagName) (loop_heads tokens tagName n1 c1) = Some j \<longrightarrow>
              j = last (loop_heads tokens tagName n1 c1) \<and>
              nextIndex (consume tokens tagName st1) = j + 1 \<and>
              contentEndIndex (consume tokens tagName st1) = startIndex (tokens ! j) \<and>
              finalEndIndex (consume tokens tagName st1) = endIndex (tokens ! j))"
        for n1 c1 st1
      proof -
        have ne: "find (closes tokens tagName) (loop_heads tokens tagName n1 c1) = Some j
              \<Longrightarrow> loop_heads tokens tagName n1 c1 \<noteq> []" for j
          by auto
        show ?thesis
          unfolding hs cs
          using ih n1 st1 lt nc ne
          by (auto simp: max_def)
      qed
      show ?thesis
      proof (cases "ttype t = Text")
        case tx: True
        show ?thesis
        proof (cases "truthy (content t)")
          case True
          define st1 where "st1 = st\<lparr>children := children st @
                      [ParsedTextNode (js ''text-'' @ toString (nodeIdCounter st))
                         (the (content t)) (startIndex t) (endIndex t)],
                   nodeIdCounter := nodeIdCounter st + 1, nextIndex := nextIndex st + 1\<rparr>"
          have hs: "loop_heads tokens tagName n c = n # loop_heads tokens tagName (n + 1) (c + 1)"
            using lt nc' tx True by (subst loop_heads.simps) (auto simp: t_def Let_def)
          have cs: "consume tokens tagName st = consume tokens tagName st1"
            using lt nc' tx True n by (subst consume.simps) (auto simp: t_def Let_def st1_def)
          show ?thesis
            by (rule final[OF _ _ _ _ hs cs IH_text[folded t_def, OF lt nc' tx True, of st1]])
               (use lt n c in \<open>auto simp: st1_def\<close>)
        next
          case False
          define st1 where "st1 = st\<lparr>nextIndex := nextIndex st + 1\<rparr>"
          have hs: "loop_heads tokens tagName n c = n # loop_heads tokens tagName (n + 1) c"
            using lt nc' tx False by (subst loop_heads.simps) (auto simp: t_def Let_def)
          have cs: "consume tokens tagName st = consume tokens tagName st1"
            using lt nc' tx False n by (subst consume.simps) (auto simp: t_def Let_def st1_def)
          show ?thesis
            by (rule final[OF _ _ _ _ hs cs IH_skip[folded t_def, OF lt nc' tx False, of st1]])
               (use lt n c in \<open>auto simp: st1_def\<close>)
        qed
      next
        case nt: False
        show ?thesis
        proof (cases "ttype t = Open \<or> ttype t = SelfClosing")
          case False
          define st1 where "st1 = st\<lparr>nextIndex := nextIndex st + 1\<rparr>"
          have hs: "loop_heads tokens tagName n c = n # loop_heads tokens tagName (n + 1) c"
            using lt nc' nt False by (subst loop_heads.simps) (auto simp: t_def Let_def)
          have cs: "consume tokens tagName st = consume tokens tagName st1"
            using lt nc' nt False n by (subst consume.simps) (auto simp: t_def Let_def st1_def)
          show ?thesis
            by (rule final[OF _ _ _ _ hs cs IH_other[folded t_def, OF lt nc' nt False, of st1]])
               (use lt n c in \<open>auto simp: st1_def\<close>)
        next
          case os: True
          obtain r c1 where p: "parse tokens n tagName c = (r, c1)"
            by (cases "parse tokens n tagName c") auto
          show ?thesis
          proof (cases r)
            case None
            define st1 where "st1 = st\<lparr>nextIndex := nextIndex st + 1, nodeIdCounter := c1\<rparr>"
            have hs: "loop_heads tokens tagName n c = n # loop_heads tokens tagName (n + 1) c1"
              using lt nc' nt os p None by (subst loop_heads.simps) (auto simp: t_def Let_def)
            have cs: "consume tokens tagName st = consume tokens tagName st1"
              using lt nc' nt os p None n c
              by (subst consume.simps) (auto simp: t_def Let_def st1_def)
            show ?thesis
              by (rule final[OF _ _ _ _ hs cs
                    IH_none[folded t_def, OF lt nc' nt os p[symmetric] None, of st1]])
                 (use lt n c in \<open>auto simp: st1_def\<close>)
          next
            case (Some nk)
            obtain node ni where nk: "nk = (node, ni)" by (cases nk) auto
            define st1 where "st1 = st\<lparr>children := children st @ [node], nextIndex := ni,
                                        nodeIdCounter := c1\<rparr>"
            have hs: "loop_heads tokens tagName n c = n # loop_heads tokens tagName ni c1"
              using lt nc' nt os p Some nk by (subst loop_heads.simps) (auto simp: t_def Let_def)
            have cs: "consume tokens tagName st = consume tokens tagName st1"
              using lt nc' nt os p Some nk n c
              by (subst consume.simps) (auto simp: t_def Let_def st1_def)
            have b: "n < ni" "ni \<le> length tokens"
              using progress(1)[of tokens n tagName c node ni c1]
                parse_bound(1)[of tokens n tagName c node ni c1] p Some nk by auto
            show ?thesis
              by (rule final[OF b _ _ hs cs
                    IH_some[folded t_def, OF lt nc' nt os p[symmetric] Some nk[symmetric], of st1]])
                 (use lt n c in \<open>auto simp: st1_def\<close>)
          qed
        qed
      qed
    qed
  qed
qed

lemma parse_open:
  assumes "index < length tokens" and "ttype (tokens ! index) = Open"
  shows "\<exists>st. st = consume tokens (tag (tokens ! index))
              \<lparr>children = [], contentEndIndex = endIndex (tokens ! index), nextIndex = index + 1,
               finalEndIndex = endIndex (tokens ! index), nodeIdCounter = c\<rparr> \<and>
          parse tokens index p c =
            (Some (ParsedNode (toString (nodeIdCounter st)) (fst (resolve (tokens ! index) p))
                     (AList.update (js ''data-id'') (toString (nodeIdCounter st))
                        (snd (resolve (tokens ! index) p)))
                     (children st) (startIndex (tokens ! index)) (finalEndIndex st)
                     (endIndex (tokens ! index)) (contentEndIndex st),
                   nextIndex st),
             nodeIdCounter st + 1)"
  using assms by (simp add: parse.simps[of tokens index] Let_def)

lemma skips_Cons_other:
  assumes "skips tokens T hs new" and "\<not> (ttype (tokens ! n) = Open \<or> ttype (tokens ! n) = SelfClosing)"
    and "\<forall>j\<in>set hs. n < j"
  shows "skips tokens T (n # hs) (add @ new)"
  unfolding skips_def
proof (intro ballI impI)
  fix j assume j: "j \<in> set (n # hs)"
    and o: "ttype (tokens ! j) = Open \<or> ttype (tokens ! j) = SelfClosing"
  from j o assms(2) have jh: "j \<in> set hs" by auto
  with assms(1) o
  obtain cj child kj cj' where k: "parse tokens j T cj = (Some (child, kj), cj')" "child \<in> set new"
      "\<forall>m. j < m \<and> m < kj \<longrightarrow> m \<notin> set hs"
    unfolding skips_def by blast
  have "n < j" using assms(3) jh by simp
  with k have "\<forall>m. j < m \<and> m < kj \<longrightarrow> m \<notin> set (n # hs)" by auto
  with k(1,2) show "\<exists>cj child kj cj'. parse tokens j T cj = (Some (child, kj), cj') \<and>
           child \<in> set (add @ new) \<and> (\<forall>m. j < m \<and> m < kj \<longrightarrow> m \<notin> set (n # hs))"
    by auto
qed

lemma skips_Cons_child:
  assumes "skips tokens T hs new" and "parse tokens n T c = (Some (node, ni), c1)"
    and "\<forall>j\<in>set hs. ni \<le> j" and "n < ni"
  shows "skips tokens T (n # hs) (node # new)"
  unfolding skips_def
proof (intro ballI impI)
  fix j assume j: "j \<in> set (n # hs)"
    and "ttype (tokens ! j) = Open \<or> ttype (tokens ! j) = SelfClosing"
  show "\<exists>cj child kj cj'. parse tokens j T cj = (Some (child, kj), cj') \<and> child \<in> set (node # new) \<and>
           (\<forall>m. j < m \<and> m < kj \<longrightarrow> m \<notin> set (n # hs))"
  proof (cases "j = n")
    case True
    have "\<forall>m. n < m \<and> m < ni \<longrightarrow> m \<notin> set (n # hs)" using assms(3) by auto
    with assms(2) True show ?thesis by auto
  next
    case False
    with j have jh: "j \<in> set hs" by simp
    with assms(1) \<open>ttype (tokens ! j) = Open \<or> ttype (tokens ! j) = SelfClosing\<close>
    obtain cj child kj cj' where k: "parse tokens j T cj = (Some (child, kj), cj')" "child \<in> set new"
      "\<forall>m. j < m \<and> m < kj \<longrightarrow> m \<notin> set hs"
      unfolding skips_def by blast
    have "n < j" using assms(3,4) jh by force
    with k have "\<forall>m. j < m \<and> m < kj \<longrightarrow> m \<notin> set (n # hs)" by auto
    with k(1,2) show ?thesis by auto
  qed
qed

lemma consume_trace:
  "nextIndex st = n \<Longrightarrow> nodeIdCounter st = c \<Longrightarrow>
     \<exists>new. children (consume tokens T st) = children st @ new \<and>
       map start_index new =
         map (\<lambda>j. startIndex (tokens ! j))
           (filter (\<lambda>j. child_token (tokens ! j)) (loop_heads tokens T n c)) \<and>
       skips tokens T (loop_heads tokens T n c) new"
proof (induction tokens T n c arbitrary: st rule: loop_heads.induct)
  case (1 tokens tagName n c)
  note IH_text = 1(1)[OF _ refl] and IH_skip = 1(2)[OF _ refl] and IH_none = 1(3)[OF _ refl]
    and IH_some = 1(4)[OF _ refl] and IH_other = 1(5)[OF _ refl]
  note n = 1(6) and c = 1(7)
  define t where "t = tokens ! n"
  show ?case
  proof (cases "n < length tokens")
    case False
    have "loop_heads tokens tagName n c = []"
      using False by (subst loop_heads.simps) simp
    moreover have "consume tokens tagName st = st"
      using False n by (subst consume.simps) simp
    ultimately show ?thesis by (simp add: skips_def)
  next
    case lt: True
    show ?thesis
    proof (cases "closes tokens tagName n")
      case True
      then have h: "loop_heads tokens tagName n c = [n]"
        using lt by (subst loop_heads.simps) (simp add: closes_def Let_def)
      have "consume tokens tagName st =
          st\<lparr>contentEndIndex := startIndex t, finalEndIndex := endIndex t, nextIndex := nextIndex st + 1\<rparr>"
        using lt True n by (subst consume.simps) (simp add: t_def Let_def closes_def)
      then show ?thesis using h True by (simp add: closes_def child_token_def skips_def)
    next
      case nc: False
      then have nc': "\<not> (ttype t = Close \<and> tag t = tagName)" by (simp add: closes_def t_def)
      have step: ?thesis
        if hs: "loop_heads tokens tagName n c = n # loop_heads tokens tagName n1 c1"
          and cs: "consume tokens tagName st = consume tokens tagName st1"
          and st1: "children st1 = children st @ add" "nextIndex st1 = n1" "nodeIdCounter st1 = c1"
          and n1: "n < n1"
          and add: "map start_index add = map (\<lambda>j. startIndex (tokens ! j)) (filter (\<lambda>j. child_token (tokens ! j)) [n])"
          and sk: "\<And>new. skips tokens tagName (loop_heads tokens tagName n1 c1) new \<Longrightarrow>
                     skips tokens tagName (n # loop_heads tokens tagName n1 c1) (add @ new)"
          and ih: "\<exists>new. children (consume tokens tagName st1) = children st1 @ new \<and>
             map start_index new =
               map (\<lambda>j. startIndex (tokens ! j))
                 (filter (\<lambda>j. child_token (tokens ! j)) (loop_heads tokens tagName n1 c1)) \<and>
             skips tokens tagName (loop_heads tokens tagName n1 c1) new"
        for n1 c1 st1 add
      proof -
        from ih obtain new where new: "children (consume tokens tagName st1) = children st1 @ new"
          "map start_index new =
               map (\<lambda>j. startIndex (tokens ! j))
                 (filter (\<lambda>j. child_token (tokens ! j)) (loop_heads tokens tagName n1 c1))"
          "skips tokens tagName (loop_heads tokens tagName n1 c1) new" by blast
        have "children (consume tokens tagName st) = children st @ (add @ new)"
          using cs new(1) st1(1) by simp
        moreover have "map start_index (add @ new) =
            map (\<lambda>j. startIndex (tokens ! j))
              (filter (\<lambda>j. child_token (tokens ! j)) (loop_heads tokens tagName n c))"
          unfolding hs using add new(2) by simp
        moreover have "skips tokens tagName (loop_heads tokens tagName n c) (add @ new)"
          unfolding hs by (rule sk[OF new(3)])
        ultimately show ?thesis by blast
      qed
      have above: "\<forall>j\<in>set (loop_heads tokens tagName n1 c1). n1 \<le> j" for n1 c1
        using consume_heads[of "st\<lparr>nextIndex := n1, nodeIdCounter := c1\<rparr>" n1 c1 tokens tagName]
        by simp
      have other: "skips tokens tagName (n # loop_heads tokens tagName (n + 1) c1) (add @ new)"
        if "skips tokens tagName (loop_heads tokens tagName (n + 1) c1) new"
          "\<not> (ttype t = Open \<or> ttype t = SelfClosing)" for new c1 add
        by (rule skips_Cons_other[OF that(1)]) (use that(2) above[of "n + 1" c1] in \<open>auto simp: t_def\<close>)
      show ?thesis
      proof (cases "ttype t = Text")
        case tx: True
        have no: "\<not> (ttype t = Open \<or> ttype t = SelfClosing)" using tx by simp
        show ?thesis
        proof (cases "truthy (content t)")
          case True
          define tn where "tn = ParsedTextNode (js ''text-'' @ toString (nodeIdCounter st))
                         (the (content t)) (startIndex t) (endIndex t)"
          define st1 where "st1 = st\<lparr>children := children st @ [tn],
                   nodeIdCounter := nodeIdCounter st + 1, nextIndex := nextIndex st + 1\<rparr>"
          have hs: "loop_heads tokens tagName n c = n # loop_heads tokens tagName (n + 1) (c + 1)"
            using lt nc' tx True by (subst loop_heads.simps) (auto simp: t_def Let_def)
          have cs: "consume tokens tagName st = consume tokens tagName st1"
            using lt nc' tx True n by (subst consume.simps) (auto simp: t_def Let_def st1_def tn_def)
          have s0: "children st1 = children st @ [tn]" by (simp add: st1_def)
          have s1: "nextIndex st1 = n + 1" "nodeIdCounter st1 = c + 1" using n c by (simp_all add: st1_def)
          have ad: "map start_index [tn] =
              map (\<lambda>j. startIndex (tokens ! j)) (filter (\<lambda>j. child_token (tokens ! j)) [n])"
            using tx True by (simp add: tn_def child_token_def t_def)
          have sk: "skips tokens tagName (n # loop_heads tokens tagName (n + 1) (c + 1)) ([tn] @ new)"
            if "skips tokens tagName (loop_heads tokens tagName (n + 1) (c + 1)) new" for new
            by (rule other[OF that no])
          have ih: "\<exists>new. children (consume tokens tagName st1) = children st1 @ new \<and>
             map start_index new =
               map (\<lambda>j. startIndex (tokens ! j))
                 (filter (\<lambda>j. child_token (tokens ! j)) (loop_heads tokens tagName (n + 1) (c + 1))) \<and>
             skips tokens tagName (loop_heads tokens tagName (n + 1) (c + 1)) new"
            using IH_text[folded t_def, OF lt nc' tx True, folded tn_def, folded st1_def, OF s1] .
          show ?thesis
            by (rule step[OF hs cs s0 s1 _ ad sk ih]) simp
        next
          case False
          define st1 where "st1 = st\<lparr>nextIndex := nextIndex st + 1\<rparr>"
          have hs: "loop_heads tokens tagName n c = n # loop_heads tokens tagName (n + 1) c"
            using lt nc' tx False by (subst loop_heads.simps) (auto simp: t_def Let_def)
          have cs: "consume tokens tagName st = consume tokens tagName st1"
            using lt nc' tx False n by (subst consume.simps) (auto simp: t_def Let_def st1_def)
          have s0: "children st1 = children st @ []" by (simp add: st1_def)
          have s1: "nextIndex st1 = n + 1" "nodeIdCounter st1 = c" using n c by (simp_all add: st1_def)
          have ad: "map start_index [] =
              map (\<lambda>j. startIndex (tokens ! j)) (filter (\<lambda>j. child_token (tokens ! j)) [n])"
            using tx False by (simp add: child_token_def t_def)
          have sk: "skips tokens tagName (n # loop_heads tokens tagName (n + 1) c) ([] @ new)"
            if "skips tokens tagName (loop_heads tokens tagName (n + 1) c) new" for new
            by (rule other[OF that no])
          have ih: "\<exists>new. children (consume tokens tagName st1) = children st1 @ new \<and>
             map start_index new =
               map (\<lambda>j. startIndex (tokens ! j))
                 (filter (\<lambda>j. child_token (tokens ! j)) (loop_heads tokens tagName (n + 1) c)) \<and>
             skips tokens tagName (loop_heads tokens tagName (n + 1) c) new"
            using IH_skip[folded t_def, OF lt nc' tx False, folded st1_def, OF s1] .
          show ?thesis
            by (rule step[OF hs cs s0 s1 _ ad sk ih]) simp
        qed
      next
        case nt: False
        show ?thesis
        proof (cases "ttype t = Open \<or> ttype t = SelfClosing")
          case False
          define st1 where "st1 = st\<lparr>nextIndex := nextIndex st + 1\<rparr>"
          have hs: "loop_heads tokens tagName n c = n # loop_heads tokens tagName (n + 1) c"
            using lt nc' nt False by (subst loop_heads.simps) (auto simp: t_def Let_def)
          have cs: "consume tokens tagName st = consume tokens tagName st1"
            using lt nc' nt False n by (subst consume.simps) (auto simp: t_def Let_def st1_def)
          have s0: "children st1 = children st @ []" by (simp add: st1_def)
          have s1: "nextIndex st1 = n + 1" "nodeIdCounter st1 = c" using n c by (simp_all add: st1_def)
          have ad: "map start_index [] =
              map (\<lambda>j. startIndex (tokens ! j)) (filter (\<lambda>j. child_token (tokens ! j)) [n])"
            using nt False by (simp add: child_token_def t_def)
          have sk: "skips tokens tagName (n # loop_heads tokens tagName (n + 1) c) ([] @ new)"
            if "skips tokens tagName (loop_heads tokens tagName (n + 1) c) new" for new
            by (rule other[OF that False])
          have ih: "\<exists>new. children (consume tokens tagName st1) = children st1 @ new \<and>
             map start_index new =
               map (\<lambda>j. startIndex (tokens ! j))
                 (filter (\<lambda>j. child_token (tokens ! j)) (loop_heads tokens tagName (n + 1) c)) \<and>
             skips tokens tagName (loop_heads tokens tagName (n + 1) c) new"
            using IH_other[folded t_def, OF lt nc' nt False, folded st1_def, OF s1] .
          show ?thesis
            by (rule step[OF hs cs s0 s1 _ ad sk ih]) simp
        next
          case os: True
          obtain node ni c1 where p: "parse tokens n tagName c = (Some (node, ni), c1)"
            using parse_nonnull[OF lt, of tagName c] os by (auto simp: t_def)
          have sn: "start_index node = startIndex t"
            using parse_node(3)[OF lt _ p] os by (simp add: t_def)
          have b: "n < ni" using progress(1)[OF p] .
          define st1 where "st1 = st\<lparr>children := children st @ [node], nextIndex := ni,
                                        nodeIdCounter := c1\<rparr>"
          have hs: "loop_heads tokens tagName n c = n # loop_heads tokens tagName ni c1"
            using lt nc' nt os p by (subst loop_heads.simps) (auto simp: t_def Let_def)
          have cs: "consume tokens tagName st = consume tokens tagName st1"
            using lt nc' nt os p n c
            by (subst consume.simps) (auto simp: t_def Let_def st1_def)
          have s0: "children st1 = children st @ [node]" by (simp add: st1_def)
          have s1: "nextIndex st1 = ni" "nodeIdCounter st1 = c1" by (simp_all add: st1_def)
          have ad: "map start_index [node] =
              map (\<lambda>j. startIndex (tokens ! j)) (filter (\<lambda>j. child_token (tokens ! j)) [n])"
            using os sn by (auto simp: child_token_def t_def)
          have sk: "skips tokens tagName (n # loop_heads tokens tagName ni c1) ([node] @ new)"
            if "skips tokens tagName (loop_heads tokens tagName ni c1) new" for new
            using skips_Cons_child[OF that p above[of ni c1] b] by simp
          have ih: "\<exists>new. children (consume tokens tagName st1) = children st1 @ new \<and>
             map start_index new =
               map (\<lambda>j. startIndex (tokens ! j))
                 (filter (\<lambda>j. child_token (tokens ! j)) (loop_heads tokens tagName ni c1)) \<and>
             skips tokens tagName (loop_heads tokens tagName ni c1) new"
            using IH_some[folded t_def, OF lt nc' nt os p[symmetric] refl refl, folded st1_def, OF s1] .
          show ?thesis
            by (rule step[OF hs cs s0 s1 b ad sk ih])
        qed
      qed
    qed
  qed
qed


lemma push_match_tags:
  assumes "substring p (p + length m) s = m" and "t \<in> set (push_match kind m p [])"
  shows "(ttype t = Close \<longrightarrow>
         tag t = Some (toLowerCase (butlast (drop 2 (substring (startIndex t) (endIndex t) s))))) \<and>
      (ttype t = Open \<or> ttype t = SelfClosing \<longrightarrow>
         tag t = map_option toLowerCase (tag_match (substring (startIndex t) (endIndex t) s)))"
proof (cases kind)
  case MComment
  with assms(2) show ?thesis by (simp add: push_match_def)
next
  case MCloseTag
  with assms show ?thesis by (simp add: push_match_def)
next
  case MOpenTag
  with assms show ?thesis
    by (cases "tag_match m") (simp_all add: push_match_def)
next
  case MText
  with assms(2) show ?thesis by (simp add: push_match_def Let_def split: if_splits)
qed

lemma tokenize_loop_tags:
  assumes "\<forall>t\<in>set acc. P t" and "\<And>kind m p t. substring p (p + length m) s = m \<Longrightarrow>
      t \<in> set (push_match kind m p []) \<Longrightarrow> P t"
  shows "\<forall>t\<in>set (tokenize_loop s i acc). P t"
  using assms
proof (induction s i acc rule: tokenize_loop.induct)
  case (1 xmlString lastIndex tokens)
  show ?case
  proof (cases "next_match (drop lastIndex xmlString) lastIndex")
    case None
    then show ?thesis using 1(2) by (simp add: tokenize_loop.simps[of xmlString lastIndex])
  next
    case (Some r)
    obtain p kind n where r: "r = (p, kind, n)" by (cases r) auto
    define m where "m = take n (drop p xmlString)"
    have sub: "substring p (p + length m) xmlString = m"
      by (simp add: substring_def m_def min_def)
    define new where "new = push_match kind m p []"
    have pm: "push_match kind m p tokens = tokens @ new"
      using push_match_append[of kind m p tokens "[]"] by (simp add: new_def)
    have n: "\<forall>t\<in>set new. P t"
      using 1(3)[OF sub] by (simp add: new_def)
    have eq: "tokenize_loop xmlString lastIndex tokens = tokenize_loop xmlString (p + n) (tokens @ new)"
      using Some r pm by (simp add: tokenize_loop.simps[of xmlString lastIndex] m_def)
    have all: "\<forall>t\<in>set (tokens @ new). P t"
      using 1(2) n by auto
    have "\<forall>t\<in>set (tokenize_loop xmlString (p + n) (tokens @ new)). P t"
    proof (rule 1(1)[OF Some[unfolded r] refl refl, folded m_def, unfolded pm, OF all])
      fix kind' m' p' t
      assume "substring p' (p' + length m') xmlString = m'" "t \<in> set (push_match kind' m' p' [])"
      then show "P t" by (rule 1(3))
    qed
    then show ?thesis unfolding eq .
  qed
qed

lemma same_name_nested:
  assumes lt: "index + 1 < length tokens" and o: "ttype (tokens ! (index + 1)) = Open"
    and tg: "tag (tokens ! (index + 1)) = T"
  shows "\<exists>inner ki ci. parse tokens (index + 1) T c = (Some (inner, ki), ci) \<and>
           loop_heads tokens T (index + 1) c = (index + 1) # loop_heads tokens T ki ci \<and>
           (\<forall>j. find (closes tokens T) (loop_heads tokens T (index + 2) c) = Some j \<longrightarrow>
              ki = j + 1 \<and> end_index inner = endIndex (tokens ! j) \<and>
              j \<notin> set (loop_heads tokens T (index + 1) c) \<and>
              find (closes tokens T) (loop_heads tokens T (index + 1) c) =
                find (closes tokens T) (loop_heads tokens T (j + 1) ci))"
proof -
  obtain inner ki ci where p: "parse tokens (index + 1) T c = (Some (inner, ki), ci)"
    using parse_nonnull[OF lt, of T c] o by auto
  have hs: "loop_heads tokens T (index + 1) c = (index + 1) # loop_heads tokens T ki ci"
    using lt o p by (subst loop_heads.simps) (simp add: Let_def)
  define st0 where "st0 = \<lparr>children = [], contentEndIndex = endIndex (tokens ! (index + 1)),
      nextIndex = index + 1 + 1, finalEndIndex = endIndex (tokens ! (index + 1)), nodeIdCounter = c\<rparr>"
  have n0: "nextIndex st0 = index + 2" "nodeIdCounter st0 = c" by (simp_all add: st0_def)
  note H = consume_heads[OF n0, of tokens T]
  from p parse_open[OF lt o, of c T] tg
  have ki: "ki = nextIndex (consume tokens T st0)"
    and e: "end_index inner = finalEndIndex (consume tokens T st0)"
    by (auto simp: st0_def)
  have ab: "\<forall>x\<in>set (loop_heads tokens T ki ci). ki \<le> x"
    using consume_heads[of "st0\<lparr>nextIndex := ki, nodeIdCounter := ci\<rparr>" ki ci tokens T] by simp
  have nc: "\<not> closes tokens T (index + 1)" using o by (simp add: closes_def)
  have "ki = j + 1 \<and> end_index inner = endIndex (tokens ! j) \<and>
              j \<notin> set (loop_heads tokens T (index + 1) c) \<and>
              find (closes tokens T) (loop_heads tokens T (index + 1) c) =
                find (closes tokens T) (loop_heads tokens T (j + 1) ci)"
    if f: "find (closes tokens T) (loop_heads tokens T (index + 2) c) = Some j" for j
  proof -
    from H f have k1: "ki = j + 1" and e1: "end_index inner = endIndex (tokens ! j)"
      by (auto simp: ki e)
    from f have "j \<in> set (loop_heads tokens T (index + 2) c)" by (auto simp: find_Some_iff)
    with H have "index + 2 \<le> j" by blast
    with ab k1 have "j \<notin> set (loop_heads tokens T (index + 1) c)" unfolding hs by auto
    moreover have "find (closes tokens T) (loop_heads tokens T (index + 1) c) =
                find (closes tokens T) (loop_heads tokens T (j + 1) ci)"
      unfolding hs using nc k1 by simp
    ultimately show ?thesis using k1 e1 by simp
  qed
  with p hs show ?thesis by blast
qed

text \<open>
  C1, as the code has it. The element opened at an open token is closed by the first close
  token with its tag name among the tokens that its own loop reads; then \<open>contentEnd\<close> is the
  start of that close token, \<open>end\<close> is its end, and that token is the last one read. The
  names are compared as they are, and the tokenizer has put both in lower case: the tag of
  a close token is the lower case of the name between \<open></\<close> and \<open>>\<close> in its text, the tag of
  an open or self-closing token the lower case of the name behind its \<open><\<close>. No depth is
  counted, but the loop does not read what a recursive call consumes: for every open or
  self-closing token that it reads, the node of the call there is a child, and the loop goes
  on at the \<open>nextIndex\<close> of that call. So the close token that closes a nested element
  closes no element around it. In particular, when the token behind an open token is an open
  token of the same name, and the loop of that inner element finds its close token at \<open>j\<close>,
  then the inner element ends at \<open>j\<close>, the outer loop does not read \<open>j\<close>, and the outer element
  is closed by the first close token of that name which its loop reads from \<open>j + 1\<close> on, if
  there is one.
\<close>

theorem close_match:
  "(index < length tokens \<and> ttype (tokens ! index) = Open \<and>
    parse tokens index parentTagName c = (Some (node, k), c') \<longrightarrow>
     (let tagName = tag (tokens ! index);
          heads = loop_heads tokens tagName (index + 1) c
      in (\<forall>j\<in>set heads. index < j \<and> j < length tokens) \<and>
         sorted_wrt (<) heads \<and>
         (\<forall>j. find (closes tokens tagName) heads = Some j \<longrightarrow>
            j = last heads \<and> k = j + 1 \<and>
            ttype (tokens ! j) = Close \<and> tag (tokens ! j) = tagName \<and>
            content_end_index node = startIndex (tokens ! j) \<and>
            end_index node = endIndex (tokens ! j)) \<and>
         (\<forall>j\<in>set heads. ttype (tokens ! j) = Open \<or> ttype (tokens ! j) = SelfClosing \<longrightarrow>
            (\<exists>cj child kj cj'. parse tokens j tagName cj = (Some (child, kj), cj') \<and>
               child \<in> set (node_children node) \<and>
               (\<forall>m. j < m \<and> m < kj \<longrightarrow> m \<notin> set heads))) \<and>
         (index + 1 < length tokens \<and> ttype (tokens ! (index + 1)) = Open \<and>
          tag (tokens ! (index + 1)) = tagName \<longrightarrow>
            (\<exists>inner ki ci. parse tokens (index + 1) tagName c = (Some (inner, ki), ci) \<and>
               heads = (index + 1) # loop_heads tokens tagName ki ci \<and>
               inner \<in> set (node_children node) \<and>
               (\<forall>j. find (closes tokens tagName) (loop_heads tokens tagName (index + 2) c) = Some j \<longrightarrow>
                  ki = j + 1 \<and> end_index inner = endIndex (tokens ! j) \<and> j \<notin> set heads \<and>
                  find (closes tokens tagName) heads =
                    find (closes tokens tagName) (loop_heads tokens tagName (j + 1) ci)))))) \<and>
   (\<forall>t\<in>set (tokenize xmlString).
      (ttype t = Close \<longrightarrow>
         tag t = Some (toLowerCase (butlast (drop 2 (substring (startIndex t) (endIndex t) xmlString))))) \<and>
      (ttype t = Open \<or> ttype t = SelfClosing \<longrightarrow>
         tag t = map_option toLowerCase (tag_match (substring (startIndex t) (endIndex t) xmlString))))"
proof (intro conjI impI)
  assume a: "index < length tokens \<and> ttype (tokens ! index) = Open \<and>
   parse tokens index parentTagName c = (Some (node, k), c')"
  define T where "T = tag (tokens ! index)"
  define st0 where "st0 = \<lparr>children = [], contentEndIndex = endIndex (tokens ! index),
      nextIndex = index + 1, finalEndIndex = endIndex (tokens ! index), nodeIdCounter = c\<rparr>"
  define heads where "heads = loop_heads tokens T (index + 1) c"
  from a parse_open[of index tokens c parentTagName]
  have k: "k = nextIndex (consume tokens T st0)"
    and ce: "content_end_index node = contentEndIndex (consume tokens T st0)"
    and e: "end_index node = finalEndIndex (consume tokens T st0)"
    and ch: "node_children node = children (consume tokens T st0)"
    by (auto simp: st0_def T_def)
  have n0: "nextIndex st0 = index + 1" "nodeIdCounter st0 = c" by (simp_all add: st0_def)
  note H = consume_heads[OF n0, of tokens T, folded heads_def]
  have cl: "ttype (tokens ! j) = Close \<and> tag (tokens ! j) = T"
    if "find (closes tokens T) heads = Some j" for j
    using that by (auto simp: find_Some_iff closes_def)
  from consume_trace[OF n0, of tokens T, folded heads_def] ch
  have sk: "skips tokens T heads (node_children node)" by (auto simp: st0_def)
  have c1: "\<forall>j\<in>set heads. index < j \<and> j < length tokens" using H by auto
  have c2: "sorted_wrt (<) heads" using H by blast
  have c3: "\<forall>j. find (closes tokens T) heads = Some j \<longrightarrow>
            j = last heads \<and> k = j + 1 \<and>
            ttype (tokens ! j) = Close \<and> tag (tokens ! j) = T \<and>
            content_end_index node = startIndex (tokens ! j) \<and>
            end_index node = endIndex (tokens ! j)"
    using H cl by (auto simp: k ce e)
  have c4: "\<forall>j\<in>set heads. ttype (tokens ! j) = Open \<or> ttype (tokens ! j) = SelfClosing \<longrightarrow>
            (\<exists>cj child kj cj'. parse tokens j T cj = (Some (child, kj), cj') \<and>
               child \<in> set (node_children node) \<and>
               (\<forall>m. j < m \<and> m < kj \<longrightarrow> m \<notin> set heads))"
    using sk unfolding skips_def .
  have c5: "index + 1 < length tokens \<and> ttype (tokens ! (index + 1)) = Open \<and>
          tag (tokens ! (index + 1)) = T \<longrightarrow>
            (\<exists>inner ki ci. parse tokens (index + 1) T c = (Some (inner, ki), ci) \<and>
               heads = (index + 1) # loop_heads tokens T ki ci \<and>
               inner \<in> set (node_children node) \<and>
               (\<forall>j. find (closes tokens T) (loop_heads tokens T (index + 2) c) = Some j \<longrightarrow>
                  ki = j + 1 \<and> end_index inner = endIndex (tokens ! j) \<and> j \<notin> set heads \<and>
                  find (closes tokens T) heads =
                    find (closes tokens T) (loop_heads tokens T (j + 1) ci)))"
  proof (intro impI)
    assume b: "index + 1 < length tokens \<and> ttype (tokens ! (index + 1)) = Open \<and>
          tag (tokens ! (index + 1)) = T"
    from same_name_nested[of index tokens T c] b
    obtain inner ki ci where i: "parse tokens (index + 1) T c = (Some (inner, ki), ci)"
      "heads = (index + 1) # loop_heads tokens T ki ci"
      "\<forall>j. find (closes tokens T) (loop_heads tokens T (index + 2) c) = Some j \<longrightarrow>
              ki = j + 1 \<and> end_index inner = endIndex (tokens ! j) \<and>
              j \<notin> set heads \<and>
              find (closes tokens T) heads = find (closes tokens T) (loop_heads tokens T (j + 1) ci)"
      unfolding heads_def by blast
    have "inner \<in> set (node_children node)"
    proof -
      define st1 where "st1 = st0\<lparr>children := children st0 @ [inner], nextIndex := ki, nodeIdCounter := ci\<rparr>"
      have "consume tokens T st0 = consume tokens T st1"
        using b i(1) by (subst consume.simps) (simp add: Let_def st0_def st1_def)
      moreover from consume_trace[of st1 ki ci tokens T]
      obtain new1 where "children (consume tokens T st1) = children st1 @ new1"
        by (auto simp: st1_def)
      ultimately show ?thesis using ch by (simp add: st1_def st0_def)
    qed
    with i show "\<exists>inner ki ci. parse tokens (index + 1) T c = (Some (inner, ki), ci) \<and>
               heads = (index + 1) # loop_heads tokens T ki ci \<and>
               inner \<in> set (node_children node) \<and>
               (\<forall>j. find (closes tokens T) (loop_heads tokens T (index + 2) c) = Some j \<longrightarrow>
                  ki = j + 1 \<and> end_index inner = endIndex (tokens ! j) \<and> j \<notin> set heads \<and>
                  find (closes tokens T) heads =
                    find (closes tokens T) (loop_heads tokens T (j + 1) ci))"
      by blast
  qed
  show "let tagName = tag (tokens ! index);
          heads = loop_heads tokens tagName (index + 1) c
      in (\<forall>j\<in>set heads. index < j \<and> j < length tokens) \<and>
         sorted_wrt (<) heads \<and>
         (\<forall>j. find (closes tokens tagName) heads = Some j \<longrightarrow>
            j = last heads \<and> k = j + 1 \<and>
            ttype (tokens ! j) = Close \<and> tag (tokens ! j) = tagName \<and>
            content_end_index node = startIndex (tokens ! j) \<and>
            end_index node = endIndex (tokens ! j)) \<and>
         (\<forall>j\<in>set heads. ttype (tokens ! j) = Open \<or> ttype (tokens ! j) = SelfClosing \<longrightarrow>
            (\<exists>cj child kj cj'. parse tokens j tagName cj = (Some (child, kj), cj') \<and>
               child \<in> set (node_children node) \<and>
               (\<forall>m. j < m \<and> m < kj \<longrightarrow> m \<notin> set heads))) \<and>
         (index + 1 < length tokens \<and> ttype (tokens ! (index + 1)) = Open \<and>
          tag (tokens ! (index + 1)) = tagName \<longrightarrow>
            (\<exists>inner ki ci. parse tokens (index + 1) tagName c = (Some (inner, ki), ci) \<and>
               heads = (index + 1) # loop_heads tokens tagName ki ci \<and>
               inner \<in> set (node_children node) \<and>
               (\<forall>j. find (closes tokens tagName) (loop_heads tokens tagName (index + 2) c) = Some j \<longrightarrow>
                  ki = j + 1 \<and> end_index inner = endIndex (tokens ! j) \<and> j \<notin> set heads \<and>
                  find (closes tokens tagName) heads =
                    find (closes tokens tagName) (loop_heads tokens tagName (j + 1) ci))))"
    unfolding Let_def T_def[symmetric] heads_def[symmetric]
    using c1 c2 c3 c4 c5 by blast
next
  show "\<forall>t\<in>set (tokenize xmlString).
      (ttype t = Close \<longrightarrow>
         tag t = Some (toLowerCase (butlast (drop 2 (substring (startIndex t) (endIndex t) xmlString))))) \<and>
      (ttype t = Open \<or> ttype t = SelfClosing \<longrightarrow>
         tag t = map_option toLowerCase (tag_match (substring (startIndex t) (endIndex t) xmlString)))"
    unfolding tokenize_def
    by (rule tokenize_loop_tags[where P = "\<lambda>t. (ttype t = Close \<longrightarrow>
         tag t = Some (toLowerCase (butlast (drop 2 (substring (startIndex t) (endIndex t) xmlString))))) \<and>
      (ttype t = Open \<or> ttype t = SelfClosing \<longrightarrow>
         tag t = map_option toLowerCase (tag_match (substring (startIndex t) (endIndex t) xmlString)))"])
       (simp, rule push_match_tags)
qed



lemma tokenize_nested:
  "tokenize (js ''<b><b>x</b>y</b>'') =
   [\<lparr>ttype = Open, tag = Some (js ''b''), attributes = Some [], content = None, startIndex = 0, endIndex = 3\<rparr>,
    \<lparr>ttype = Open, tag = Some (js ''b''), attributes = Some [], content = None, startIndex = 3, endIndex = 6\<rparr>,
    \<lparr>ttype = Text, tag = None, attributes = None, content = Some (js ''x''), startIndex = 6, endIndex = 7\<rparr>,
    \<lparr>ttype = Close, tag = Some (js ''b''), attributes = None, content = None, startIndex = 7, endIndex = 11\<rparr>,
    \<lparr>ttype = Text, tag = None, attributes = None, content = Some (js ''y''), startIndex = 11, endIndex = 12\<rparr>,
    \<lparr>ttype = Close, tag = Some (js ''b''), attributes = None, content = None, startIndex = 12, endIndex = 16\<rparr>]"
  by (simp add: tok_eval cong: let_weak_cong)

lemma parse_nested_tokens:
  "parse
   [\<lparr>ttype = Open, tag = Some (js ''b''), attributes = Some [], content = None, startIndex = 0, endIndex = 3\<rparr>,
    \<lparr>ttype = Open, tag = Some (js ''b''), attributes = Some [], content = None, startIndex = 3, endIndex = 6\<rparr>,
    \<lparr>ttype = Text, tag = None, attributes = None, content = Some (js ''x''), startIndex = 6, endIndex = 7\<rparr>,
    \<lparr>ttype = Close, tag = Some (js ''b''), attributes = None, content = None, startIndex = 7, endIndex = 11\<rparr>,
    \<lparr>ttype = Text, tag = None, attributes = None, content = Some (js ''y''), startIndex = 11, endIndex = 12\<rparr>,
    \<lparr>ttype = Close, tag = Some (js ''b''), attributes = None, content = None, startIndex = 12, endIndex = 16\<rparr>]
   0 None 0 =
   (Some (ParsedNode (js ''3'') (Elem (js ''div'')) [(js ''data-id'', js ''3'')]
      [ParsedNode (js ''1'') (Elem (js ''div'')) [(js ''data-id'', js ''1'')]
         [ParsedTextNode (js ''text-0'') (js ''x'') 6 7] 3 11 6 7,
       ParsedTextNode (js ''text-2'') (js ''y'') 11 12]
      0 16 3 12, 6), 4)"
  by (simp add: parse_eval cong: let_weak_cong)

lemma heads_nested_tokens:
  "loop_heads
   [\<lparr>ttype = Open, tag = Some (js ''b''), attributes = Some [], content = None, startIndex = 0, endIndex = 3\<rparr>,
    \<lparr>ttype = Open, tag = Some (js ''b''), attributes = Some [], content = None, startIndex = 3, endIndex = 6\<rparr>,
    \<lparr>ttype = Text, tag = None, attributes = None, content = Some (js ''x''), startIndex = 6, endIndex = 7\<rparr>,
    \<lparr>ttype = Close, tag = Some (js ''b''), attributes = None, content = None, startIndex = 7, endIndex = 11\<rparr>,
    \<lparr>ttype = Text, tag = None, attributes = None, content = Some (js ''y''), startIndex = 11, endIndex = 12\<rparr>,
    \<lparr>ttype = Close, tag = Some (js ''b''), attributes = None, content = None, startIndex = 12, endIndex = 16\<rparr>]
   (Some (js ''b'')) (Suc 0) 0 = [1, 4, 5]"
  by (simp add: loop_heads.simps parse_eval cong: let_weak_cong)

lemma tokenize_nested_caps:
  "tokenize (js ''<B><b>x</b>y</B>'') =
   [\<lparr>ttype = Open, tag = Some (js ''b''), attributes = Some [], content = None, startIndex = 0, endIndex = 3\<rparr>,
    \<lparr>ttype = Open, tag = Some (js ''b''), attributes = Some [], content = None, startIndex = 3, endIndex = 6\<rparr>,
    \<lparr>ttype = Text, tag = None, attributes = None, content = Some (js ''x''), startIndex = 6, endIndex = 7\<rparr>,
    \<lparr>ttype = Close, tag = Some (js ''b''), attributes = None, content = None, startIndex = 7, endIndex = 11\<rparr>,
    \<lparr>ttype = Text, tag = None, attributes = None, content = Some (js ''y''), startIndex = 11, endIndex = 12\<rparr>,
    \<lparr>ttype = Close, tag = Some (js ''b''), attributes = None, content = None, startIndex = 12, endIndex = 16\<rparr>]"
  by (simp add: tok_eval cong: let_weak_cong)

theorem close_match_witness:
  "loop_heads (tokenize (js ''<B><b>x</b>y</B>'')) (Some (js ''b'')) 1 0 = [1, 4, 5] \<and>
   parse (tokenize (js ''<B><b>x</b>y</B>'')) 0 None 0 =
   (Some (ParsedNode (js ''3'') (Elem (js ''div'')) [(js ''data-id'', js ''3'')]
      [ParsedNode (js ''1'') (Elem (js ''div'')) [(js ''data-id'', js ''1'')]
         [ParsedTextNode (js ''text-0'') (js ''x'') 6 7] 3 11 6 7,
       ParsedTextNode (js ''text-2'') (js ''y'') 11 12]
      0 16 3 12, 6), 4)"
  using close_match[of 0 "tokenize (js ''<B><b>x</b>y</B>'')" None 0
     "ParsedNode (js ''3'') (Elem (js ''div'')) [(js ''data-id'', js ''3'')]
      [ParsedNode (js ''1'') (Elem (js ''div'')) [(js ''data-id'', js ''1'')]
         [ParsedTextNode (js ''text-0'') (js ''x'') 6 7] 3 11 6 7,
       ParsedTextNode (js ''text-2'') (js ''y'') 11 12]
      0 16 3 12" 6 4 "js ''<B><b>x</b>y</B>''"]
  by (simp (no_asm) add: tokenize_nested_caps parse_nested_tokens heads_nested_tokens)

text \<open>
  C1 as stated fails: in \<open><b><b>x</b>y</b>\<close> the inner \<open>b\<close> is closed by the first \<open></b>\<close> and
  spans 3 to 11, and the outer \<open>b\<close> is not closed there: it goes on, takes the text \<open>y\<close> as
  its second child and is closed by the second \<open></b>\<close>, with \<open>contentEnd = 12\<close> and
  \<open>end = 16\<close>.
\<close>

theorem nested_same_name_counterexample:
  "parse (tokenize (js ''<b><b>x</b>y</b>'')) 0 None 0 =
   (Some (ParsedNode (js ''3'') (Elem (js ''div'')) [(js ''data-id'', js ''3'')]
      [ParsedNode (js ''1'') (Elem (js ''div'')) [(js ''data-id'', js ''1'')]
         [ParsedTextNode (js ''text-0'') (js ''x'') 6 7] 3 11 6 7,
       ParsedTextNode (js ''text-2'') (js ''y'') 11 12]
      0 16 3 12, 6), 4) \<and>
   endIndex (tokenize (js ''<b><b>x</b>y</b>'') ! 3) = 11 \<and>
   endIndex (tokenize (js ''<b><b>x</b>y</b>'') ! 5) = 16"
  by (simp add: tokenize_nested parse_nested_tokens)









section \<open>Spans of siblings and children\<close>

lemma ordered_nth:
  assumes "tokens_ordered ts"
  shows "i < length ts \<Longrightarrow> startIndex (ts ! i) < endIndex (ts ! i)"
    and "i < j \<Longrightarrow> j < length ts \<Longrightarrow> endIndex (ts ! i) \<le> startIndex (ts ! j)"
    and "i \<le> j \<Longrightarrow> j < length ts \<Longrightarrow> endIndex (ts ! i) \<le> endIndex (ts ! j)"
proof -
  show a: "i < length ts \<Longrightarrow> startIndex (ts ! i) < endIndex (ts ! i)" for i
    using assms by (simp add: tokens_ordered_def)
  show b: "i < j \<Longrightarrow> j < length ts \<Longrightarrow> endIndex (ts ! i) \<le> startIndex (ts ! j)" for i j
    using assms by (simp add: tokens_ordered_def sorted_wrt_iff_nth_less)
  show "i \<le> j \<Longrightarrow> j < length ts \<Longrightarrow> endIndex (ts ! i) \<le> endIndex (ts ! j)"
    using a[of j] b[of i j] by (cases "i = j") auto
qed

lemma push_match_new:
  assumes "m \<noteq> []"
  shows "\<forall>t\<in>set (push_match kind m p []). p \<le> startIndex t \<and> startIndex t < endIndex t \<and>
            endIndex t = p + length m"
    and "sorted_wrt (\<lambda>a b. endIndex a \<le> startIndex b) (push_match kind m p [])"
proof -
  have "length (takeWhile is_space m) < length m" if "trim m \<noteq> []"
  proof -
    from that have "\<not> (\<forall>c\<in>set m. is_space c)" using trim_empty by blast
    then have "takeWhile is_space m \<noteq> m" by (metis set_takeWhileD)
    then show ?thesis
      by (metis append_self_conv length_takeWhile_le less_le takeWhile_dropWhile_id length_append add_cancel_right_right length_0_conv)
  qed
  with assms show "\<forall>t\<in>set (push_match kind m p []). p \<le> startIndex t \<and> startIndex t < endIndex t \<and>
            endIndex t = p + length m"
    by (auto simp: push_match_def Let_def split: match_kind.splits option.splits)
  show "sorted_wrt (\<lambda>a b. endIndex a \<le> startIndex b) (push_match kind m p [])"
    by (auto simp: push_match_def Let_def split: match_kind.splits option.splits)
qed

lemma tokenize_loop_ordered:
  "tokens_ordered acc \<Longrightarrow> \<forall>t\<in>set acc. endIndex t \<le> i \<Longrightarrow> tokens_ordered (tokenize_loop s i acc)"
proof (induction s i acc rule: tokenize_loop.induct)
  case (1 xmlString lastIndex tokens)
  show ?case
  proof (cases "next_match (drop lastIndex xmlString) lastIndex")
    case None
    then show ?thesis using 1(2) by (simp add: tokenize_loop.simps[of xmlString lastIndex])
  next
    case (Some r)
    obtain p kind n where r: "r = (p, kind, n)" by (cases r) auto
    from next_match_bounds[OF Some[unfolded r]]
    have b: "lastIndex \<le> p" "p < lastIndex + length (drop lastIndex xmlString)" "0 < n" by auto
    define m where "m = take n (drop p xmlString)"
    have mne: "m \<noteq> []" using b by (auto simp: m_def)
    have ml: "length m \<le> n" by (simp add: m_def)
    define new where "new = push_match kind m p []"
    have pm: "push_match kind m p tokens = tokens @ new"
      using push_match_append[of kind m p tokens "[]"] by (simp add: new_def)
    note N = push_match_new[OF mne, of kind p, folded new_def]
    have o: "tokens_ordered (tokens @ new)"
      using 1(2,3) N b(1)
      by (fastforce simp: tokens_ordered_def sorted_wrt_append)
    have e: "\<forall>t\<in>set (tokens @ new). endIndex t \<le> p + n"
      using 1(3) N(1) b(1) ml by fastforce
    have "tokenize_loop xmlString lastIndex tokens = tokenize_loop xmlString (p + n) (tokens @ new)"
      using Some r pm by (simp add: tokenize_loop.simps[of xmlString lastIndex] m_def)
    with 1(1)[OF Some[unfolded r] refl refl, folded m_def, unfolded pm, OF o e]
    show ?thesis by simp
  qed
qed

lemma tokenize_ordered: "tokens_ordered (tokenize s)"
  unfolding tokenize_def by (rule tokenize_loop_ordered) (simp_all add: tokens_ordered_def)

lemma loop_inv_step:
  assumes ord: "tokens_ordered tokens" and inv: "loop_inv tokens L st"
    and lt: "nextIndex st < length tokens"
  shows "loop_inv tokens L (st\<lparr>nextIndex := nextIndex st + 1\<rparr>)"
proof -
  have e: "endIndex (tokens ! (nextIndex st - 1)) \<le> endIndex (tokens ! nextIndex st)"
    using ordered_nth(3)[OF ord, of "nextIndex st - 1" "nextIndex st"] lt by simp
  show ?thesis
    using inv lt e by (fastforce simp: loop_inv_def)
qed

lemma loop_inv_push:
  assumes ord: "tokens_ordered tokens" and inv: "loop_inv tokens L st"
    and lt: "nextIndex st < length tokens" and ni: "nextIndex st < ni" "ni \<le> length tokens"
    and child: "spans_ok child" "start_index child = startIndex (tokens ! nextIndex st)"
      "start_index child \<le> end_index child" "end_index child \<le> endIndex (tokens ! (ni - 1))"
  shows "loop_inv tokens L (st\<lparr>children := children st @ [child], nextIndex := ni, nodeIdCounter := c\<rparr>)"
proof -
  have n0: "0 < nextIndex st" using inv by (simp add: loop_inv_def)
  have s: "endIndex (tokens ! (nextIndex st - 1)) \<le> startIndex (tokens ! nextIndex st)"
    using ordered_nth(2)[OF ord, of "nextIndex st - 1" "nextIndex st"] lt n0 by simp
  have e: "endIndex (tokens ! (nextIndex st - 1)) \<le> endIndex (tokens ! (ni - 1))"
    using ordered_nth(3)[OF ord, of "nextIndex st - 1" "ni - 1"] ni by simp
  show ?thesis
    using inv ni child s e n0
    by (fastforce simp: loop_inv_def sorted_wrt_append)
qed

lemma parse_spans:
  "tokens_ordered tokens \<Longrightarrow> parse tokens index p c = (Some (node, k), c') \<Longrightarrow>
     spans_ok node \<and> start_index node = startIndex (tokens ! index) \<and>
     start_index node \<le> end_index node \<and> index < k \<and> k \<le> length tokens \<and>
     end_index node \<le> endIndex (tokens ! (k - 1))"
  "tokens_ordered tokens \<Longrightarrow> loop_inv tokens L st \<Longrightarrow> loop_post tokens L (consume tokens T st)"
proof (induct tokens index p c and tokens T st arbitrary: node k c' and L rule: parse_consume.induct)
  case (1 tokens index parentTagName c)
  note IH = 1(1)[OF _ refl _ refl refl] and ord = 1(2) and r = 1(3)
  from r have lt: "index < length tokens"
    and os: "ttype (tokens ! index) = Open \<or> ttype (tokens ! index) = SelfClosing"
    by (auto simp: parse.simps[of tokens index] Let_def split: if_splits)
  define t where "t = tokens ! index"
  define st0 where "st0 = \<lparr>children = [], contentEndIndex = endIndex t, nextIndex = index + 1,
                      finalEndIndex = endIndex t, nodeIdCounter = c\<rparr>"
  define st where "st = (if ttype t = Open then consume tokens (tag t) st0 else st0)"
  have i0: "loop_inv tokens (endIndex t) st0"
    using lt by (simp add: loop_inv_def st0_def t_def)
  have post: "loop_post tokens (endIndex t) st"
  proof (cases "ttype t = Open")
    case True
    with IH[folded t_def, folded st0_def, OF lt _ _ ord i0] os show ?thesis
      by (simp add: st_def t_def)
  next
    case False
    then show ?thesis using lt by (simp add: st_def loop_post_def st0_def t_def)
  qed
  have node: "node = ParsedNode (toString (nodeIdCounter st)) (fst (resolve t parentTagName))
                       (AList.update (js ''data-id'') (toString (nodeIdCounter st)) (snd (resolve t parentTagName)))
                       (children st) (startIndex t) (finalEndIndex st) (endIndex t) (contentEndIndex st)"
    and k: "k = nextIndex st"
    using r lt os by (auto simp: parse.simps[of tokens index] Let_def t_def st_def st0_def split: if_splits)
  have lo: "index < nextIndex st"
  proof (cases "ttype t = Open")
    case True
    then show ?thesis using progress(2)[of st0 tokens "tag t"] by (simp add: st_def st0_def)
  next
    case False
    then show ?thesis by (simp add: st_def st0_def)
  qed
  have se: "startIndex t < endIndex t" using ordered_nth(1)[OF ord lt] by (simp add: t_def)
  show ?case
    using post se lo unfolding node k
    by (auto simp: loop_post_def t_def)
next
  case (2 tokens tagName st)
  note IH_text = 2(1)[OF _ refl] and IH_skip_text = 2(2)[OF _ refl] and IH_parse = 2(3)[OF _ refl]
    and IH_none = 2(4)[OF _ refl] and IH_some = 2(5)[OF _ refl] and IH_other = 2(6)[OF _ refl]
  note ord = 2(7) and inv = 2(8)
  define t where "t = tokens ! nextIndex st"
  show ?case
  proof (cases "nextIndex st < length tokens")
    case False
    then have "consume tokens tagName st = st" by (subst consume.simps) simp
    then show ?thesis using inv by (auto simp: loop_inv_def loop_post_def)
  next
    case lt: True
    have n0: "0 < nextIndex st" using inv by (simp add: loop_inv_def)
    have prev: "endIndex (tokens ! (nextIndex st - 1)) \<le> startIndex t"
      using ordered_nth(2)[OF ord, of "nextIndex st - 1" "nextIndex st"] lt n0 by (simp add: t_def)
    have tse: "startIndex t < endIndex t" using ordered_nth(1)[OF ord lt] by (simp add: t_def)
    show ?thesis
    proof (cases "ttype t = Close \<and> tag t = tagName")
      case True
      then have "consume tokens tagName st =
          st\<lparr>contentEndIndex := startIndex t, finalEndIndex := endIndex t, nextIndex := nextIndex st + 1\<rparr>"
        using lt by (subst consume.simps) (simp add: t_def Let_def)
      then show ?thesis
        using inv lt prev tse by (fastforce simp: loop_inv_def loop_post_def t_def)
    next
      case nc: False
      show ?thesis
      proof (cases "ttype t = Text")
        case tx: True
        show ?thesis
        proof (cases "truthy (content t)")
          case True
          define tn where "tn = ParsedTextNode (js ''text-'' @ toString (nodeIdCounter st))
                         (the (content t)) (startIndex t) (endIndex t)"
          define st1 where "st1 = st\<lparr>children := children st @ [tn],
                   nodeIdCounter := nodeIdCounter st + 1, nextIndex := nextIndex st + 1\<rparr>"
          have eq: "consume tokens tagName st = consume tokens tagName st1"
            using lt nc tx True by (subst consume.simps) (auto simp: t_def Let_def st1_def tn_def)
          have "loop_inv tokens L (st\<lparr>children := children st @ [tn], nextIndex := nextIndex st + 1,
                    nodeIdCounter := nodeIdCounter st + 1\<rparr>)"
            by (rule loop_inv_push[OF ord inv lt]) (use lt tse in \<open>auto simp: tn_def t_def\<close>)
          then have i1: "loop_inv tokens L st1" by (simp add: st1_def loop_inv_def)
          from IH_text[folded t_def, OF lt nc tx True, folded tn_def, folded st1_def, OF ord i1]
          show ?thesis by (simp add: eq)
        next
          case False
          have eq: "consume tokens tagName st = consume tokens tagName (st\<lparr>nextIndex := nextIndex st + 1\<rparr>)"
            using lt nc tx False by (subst consume.simps) (auto simp: t_def Let_def)
          from IH_skip_text[folded t_def, OF lt nc tx False ord loop_inv_step[OF ord inv lt]]
          show ?thesis by (simp add: eq)
        qed
      next
        case nt: False
        show ?thesis
        proof (cases "ttype t = Open \<or> ttype t = SelfClosing")
          case False
          have eq: "consume tokens tagName st = consume tokens tagName (st\<lparr>nextIndex := nextIndex st + 1\<rparr>)"
            using lt nc nt False by (subst consume.simps) (auto simp: t_def Let_def)
          from IH_other[folded t_def, OF lt nc nt False ord loop_inv_step[OF ord inv lt]]
          show ?thesis by (simp add: eq)
        next
          case os: True
          obtain r c1 where p: "parse tokens (nextIndex st) tagName (nodeIdCounter st) = (r, c1)"
            by (cases "parse tokens (nextIndex st) tagName (nodeIdCounter st)") auto
          show ?thesis
          proof (cases r)
            case None
            define st1 where "st1 = st\<lparr>nextIndex := nextIndex st + 1, nodeIdCounter := c1\<rparr>"
            have eq: "consume tokens tagName st = consume tokens tagName st1"
              using lt nc nt os p None
              by (subst consume.simps) (auto simp: t_def Let_def st1_def)
            have i1: "loop_inv tokens L st1"
              using loop_inv_step[OF ord inv lt] by (simp add: st1_def loop_inv_def)
            from IH_none[folded t_def, OF lt nc nt os p[symmetric] None, folded st1_def, OF ord i1]
            show ?thesis by (simp add: eq)
          next
            case (Some nk)
            obtain node ni where nk: "nk = (node, ni)" by (cases nk) auto
            define st1 where "st1 = st\<lparr>children := children st @ [node], nextIndex := ni,
                                        nodeIdCounter := c1\<rparr>"
            have eq: "consume tokens tagName st = consume tokens tagName st1"
              using lt nc nt os p Some nk
              by (subst consume.simps) (auto simp: t_def Let_def st1_def)
            note P = IH_parse[folded t_def, OF lt nc nt os ord p[unfolded Some nk]]
            have i1: "loop_inv tokens L st1"
              unfolding st1_def
              by (rule loop_inv_push[OF ord inv lt]) (use P in \<open>auto simp: t_def\<close>)
            from IH_some[folded t_def, OF lt nc nt os p[symmetric] Some nk[symmetric], folded st1_def, OF ord i1]
            show ?thesis by (simp add: eq)
          qed
        qed
      qed
    qed
  qed
qed

text \<open>
  What does hold of the spans. In the tree that \<open>parseDocBook\<close> returns, and in the node of
  every call of \<open>parse\<close> on ordered tokens, \<open>spans_ok\<close> holds at every node: the children are
  in document order, an earlier sibling ends at or before the start of a later one, every
  child begins at or after \<open>contentStart\<close> of its parent, and every child ends at or before
  \<open>contentEnd\<close> of its parent when the parent has \<open>contentEnd < end\<close>. An element has
  \<open>contentEnd < end\<close> exactly when its loop has read its close token.
\<close>

lemma spans_of_tree:
  "(parseDocBook wellFormed eng xmlString = Some tree \<longrightarrow> spans_ok tree) \<and>
   (tokens_ordered tokens \<and> parse tokens index parentTagName c = (Some (node, k), c') \<longrightarrow>
      spans_ok node \<and>
      (ttype (tokens ! index) = Open \<longrightarrow>
         (content_end_index node < end_index node \<longleftrightarrow>
          find (closes tokens (tag (tokens ! index)))
            (loop_heads tokens (tag (tokens ! index)) (index + 1) c) \<noteq> None)) \<and>
      (ttype (tokens ! index) \<noteq> Open \<longrightarrow>
         node_children node = [] \<and> content_end_index node = end_index node \<and>
         content_start_index node = end_index node))"
proof (intro conjI impI)
  assume t: "parseDocBook wellFormed eng xmlString = Some tree"
  then obtain i k c' where r: "parse (tokenize xmlString) i None 0 = (Some (tree, k), c')"
    using parseDocBook_Some by blast
  from parse_spans(1)[OF tokenize_ordered r] show "spans_ok tree" by simp
next
  assume a: "tokens_ordered tokens \<and> parse tokens index parentTagName c = (Some (node, k), c')"
  then show "spans_ok node" using parse_spans(1) by blast
next
  assume a: "tokens_ordered tokens \<and> parse tokens index parentTagName c = (Some (node, k), c')"
    and op: "ttype (tokens ! index) = Open"
  from a have lt: "index < length tokens"
    by (auto simp: parse.simps[of tokens index] Let_def split: if_splits)
  define st0 where "st0 = \<lparr>children = [], contentEndIndex = endIndex (tokens ! index),
      nextIndex = index + 1, finalEndIndex = endIndex (tokens ! index), nodeIdCounter = c\<rparr>"
  define heads where "heads = loop_heads tokens (tag (tokens ! index)) (index + 1) c"
  from a op lt parse_open[of index tokens c parentTagName]
  have ce: "content_end_index node = contentEndIndex (consume tokens (tag (tokens ! index)) st0)"
    and e: "end_index node = finalEndIndex (consume tokens (tag (tokens ! index)) st0)"
    by (auto simp: st0_def)
  have n0: "nextIndex st0 = index + 1" "nodeIdCounter st0 = c" by (simp_all add: st0_def)
  note H = consume_heads[OF n0, of tokens "tag (tokens ! index)", folded heads_def]
  show "content_end_index node < end_index node \<longleftrightarrow>
          find (closes tokens (tag (tokens ! index)))
            (loop_heads tokens (tag (tokens ! index)) (index + 1) c) \<noteq> None"
  proof (cases "find (closes tokens (tag (tokens ! index))) heads")
    case None
    with H show ?thesis by (simp add: ce e heads_def st0_def)
  next
    case (Some j)
    with H have j: "j \<in> set heads" "contentEndIndex (consume tokens (tag (tokens ! index)) st0) = startIndex (tokens ! j)"
      "finalEndIndex (consume tokens (tag (tokens ! index)) st0) = endIndex (tokens ! j)"
      by (auto simp: find_Some_iff)
    with H have "j < length tokens" by blast
    with a ordered_nth(1) have "startIndex (tokens ! j) < endIndex (tokens ! j)" by blast
    with Some j show ?thesis by (simp add: ce e heads_def)
  qed
next
  assume a: "tokens_ordered tokens \<and> parse tokens index parentTagName c = (Some (node, k), c')"
    and op: "ttype (tokens ! index) \<noteq> Open"
  then have "node_children node = [] \<and> content_end_index node = end_index node \<and>
         content_start_index node = end_index node"
    by (auto simp: parse.simps[of tokens index] Let_def split: if_splits)
  then show "node_children node = []" "content_end_index node = end_index node"
    "content_start_index node = end_index node" by simp_all
qed

lemma tokenize_cdata:
  "tokenize (js ''<para><![CDATA[<b>]]></para>'') =
   [\<lparr>ttype = Open, tag = Some (js ''para''), attributes = Some [], content = None, startIndex = 0, endIndex = 6\<rparr>,
    \<lparr>ttype = Text, tag = None, attributes = None, content = Some (js ''![CDATA[''), startIndex = 7, endIndex = 15\<rparr>,
    \<lparr>ttype = Open, tag = Some (js ''b''), attributes = Some [], content = None, startIndex = 15, endIndex = 18\<rparr>,
    \<lparr>ttype = Text, tag = None, attributes = None, content = Some (js '']]>''), startIndex = 18, endIndex = 21\<rparr>,
    \<lparr>ttype = Close, tag = Some (js ''para''), attributes = None, content = None, startIndex = 21, endIndex = 28\<rparr>]"
  by (simp add: tok_eval cong: let_weak_cong)

lemma parse_cdata_tokens:
  "parse
   [\<lparr>ttype = Open, tag = Some (js ''para''), attributes = Some [], content = None, startIndex = 0, endIndex = 6\<rparr>,
    \<lparr>ttype = Text, tag = None, attributes = None, content = Some (js ''![CDATA[''), startIndex = 7, endIndex = 15\<rparr>,
    \<lparr>ttype = Open, tag = Some (js ''b''), attributes = Some [], content = None, startIndex = 15, endIndex = 18\<rparr>,
    \<lparr>ttype = Text, tag = None, attributes = None, content = Some (js '']]>''), startIndex = 18, endIndex = 21\<rparr>,
    \<lparr>ttype = Close, tag = Some (js ''para''), attributes = None, content = None, startIndex = 21, endIndex = 28\<rparr>]
   0 None 0 =
   (Some (ParsedNode (js ''3'') (Elem (js ''p'')) [(js ''data-id'', js ''3'')]
      [ParsedTextNode (js ''text-0'') (js ''![CDATA['') 7 15,
       ParsedNode (js ''2'') (Elem (js ''div'')) [(js ''data-id'', js ''2'')]
         [ParsedTextNode (js ''text-1'') (js '']]>'') 18 21] 15 18 18 18]
      0 6 6 6, 5), 4)"
  by (simp add: parse_eval cong: let_weak_cong)

lemma parse_call_cdata_tokens:
  "parse_call 2
   [\<lparr>ttype = Open, tag = Some (js ''para''), attributes = Some [], content = None, startIndex = 0, endIndex = 6\<rparr>,
    \<lparr>ttype = Text, tag = None, attributes = None, content = Some (js ''![CDATA[''), startIndex = 7, endIndex = 15\<rparr>,
    \<lparr>ttype = Open, tag = Some (js ''b''), attributes = Some [], content = None, startIndex = 15, endIndex = 18\<rparr>,
    \<lparr>ttype = Text, tag = None, attributes = None, content = Some (js '']]>''), startIndex = 18, endIndex = 21\<rparr>,
    \<lparr>ttype = Close, tag = Some (js ''para''), attributes = None, content = None, startIndex = 21, endIndex = 28\<rparr>]
   0 None 0 =
   Inr (Some (ParsedNode (js ''3'') (Elem (js ''p'')) [(js ''data-id'', js ''3'')]
      [ParsedTextNode (js ''text-0'') (js ''![CDATA['') 7 15,
       ParsedNode (js ''2'') (Elem (js ''div'')) [(js ''data-id'', js ''2'')]
         [ParsedTextNode (js ''text-1'') (js '']]>'') 18 21] 15 18 18 18]
      0 6 6 6, 5), 4)"
  by (simp add: call_eval cong: let_weak_cong)

lemma parseDocBook_cdata:
  "wellFormed (js ''<para><![CDATA[<b>]]></para>'') \<Longrightarrow>
   regexFits eng (js ''<para><![CDATA[<b>]]></para>'') \<Longrightarrow> 2 \<le> callStack eng \<Longrightarrow>
   parseDocBook wellFormed eng (js ''<para><![CDATA[<b>]]></para>'') =
   Some (ParsedNode (js ''3'') (Elem (js ''p'')) [(js ''data-id'', js ''3'')]
      [ParsedTextNode (js ''text-0'') (js ''![CDATA['') 7 15,
       ParsedNode (js ''2'') (Elem (js ''div'')) [(js ''data-id'', js ''2'')]
         [ParsedTextNode (js ''text-1'') (js '']]>'') 18 21] 15 18 18 18]
      0 6 6 6)"
  by (rule parseDocBook_eval[OF _ _ tokenize_cdata _ _ parse_call_cdata_tokens]) simp_all

text \<open>
  C3 does not hold of the code. The text \<open><para><![CDATA[<b>]]></para>\<close> is well-formed XML,
  an element \<open>para\<close> that holds one CDATA section, so the check accepts it. The tokenizer
  reads an open token \<open>b\<close> inside the CDATA section; the loop of \<open>b\<close> runs to the end of the
  tokens and passes over \<open></para>\<close>, the token from 21 to 28, so that neither element finds a
  close token. In the tree that \<open>parseDocBook\<close> returns, the node of \<open>para\<close> has the content
  span 6 to 6 and ends at 6, and its children have the spans 7 to 15 and 15 to 18; the node
  of \<open>b\<close> has the content span 18 to 18 and a child with the span 18 to 21. The children lie
  outside the content span of their parent, and outside its span: \<open>contentEndIndex\<close> and
  \<open>endIndex\<close> are set only when the close token is read (lines 139 and 140), and nothing
  sets them when the loop runs out of tokens, although types.ts has \<open>endIndex\<close> as the index
  of the closing tag's \<open>>\<close> and \<open>contentEndIndex\<close> as the index where the inner content ends.
\<close>

theorem child_outside_content:
  "parseDocBook top \<lparr>callStack = 10000, regexFits = top\<rparr> (js ''<para><![CDATA[<b>]]></para>'') =
   Some (ParsedNode (js ''3'') (Elem (js ''p'')) [(js ''data-id'', js ''3'')]
      [ParsedTextNode (js ''text-0'') (js ''![CDATA['') 7 15,
       ParsedNode (js ''2'') (Elem (js ''div'')) [(js ''data-id'', js ''2'')]
         [ParsedTextNode (js ''text-1'') (js '']]>'') 18 21] 15 18 18 18]
      0 6 6 6) \<and>
   tokenize (js ''<para><![CDATA[<b>]]></para>'') ! 4 =
     \<lparr>ttype = Close, tag = Some (js ''para''), attributes = None, content = None,
      startIndex = 21, endIndex = 28\<rparr>"
  by (simp add: parseDocBook_cdata tokenize_cdata)

end
